theory Spec2Isabelle
  imports
    Complex_Main
    "HOL-Library.AList"
    "HOL-Library.Sublist"
    "HOL-Library.Char_ord"
    "HOL-Library.List_Lexorder"
begin

section \<open>Frecent history: data model\<close>

text \<open>
  The development follows \<^verbatim>\<open>frecent_history.py\<close>, the fuller of the two history
  variants.

  A history entry is the dictionary \<^verbatim>\<open>dict(added=..., last_seen=..., inserts=...)\<close>;
  its three values are Python integers (seconds since the epoch, and a count).
  A history is a Python \<^verbatim>\<open>dict\<close> from path to entry. A \<^verbatim>\<open>dict\<close> keeps its keys in
  insertion order and \<^verbatim>\<open>sorted\<close> is stable, so the order is observable: a history is an
  association list, whose keys are pairwise distinct whenever it stands for a \<^verbatim>\<open>dict\<close>.
\<close>

record entry =
  added :: int
  last_seen :: int
  inserts :: int

type_synonym path = string

type_synonym history = "(path \<times> entry) list"

datatype py_error = IOError | JSONDecodeError | ZeroDivisionError | OverflowError

text \<open>
  \<^verbatim>\<open>new_history_entry\<close> reads the clock itself (\<^verbatim>\<open>get_time_seconds()\<close>); the reading is
  the argument here.
\<close>

definition new_history_entry :: "int \<Rightarrow> entry" where
  "new_history_entry clock = \<lparr>added = clock, last_seen = clock, inserts = 0\<rparr>"

section \<open>Frecency\<close>

definition SECONDS_PER_MINUTE :: int where
  "SECONDS_PER_MINUTE = 60"

definition SECONDS_PER_HOUR :: int where
  "SECONDS_PER_HOUR = SECONDS_PER_MINUTE * 60"

definition SECONDS_PER_DAY :: int where
  "SECONDS_PER_DAY = SECONDS_PER_HOUR * 24"

definition SECONDS_PER_WEEK :: int where
  "SECONDS_PER_WEEK = SECONDS_PER_DAY * 7"

definition recency_score :: "int \<Rightarrow> int" where
  "recency_score ds =
     (if ds < SECONDS_PER_MINUTE then 8
      else if ds < SECONDS_PER_HOUR then 6
      else if ds < SECONDS_PER_DAY then 4
      else if ds < SECONDS_PER_WEEK then 2
      else 1)"

text \<open>
  \<^verbatim>\<open>frecency\<close> is \<^verbatim>\<open>(count / age) * recency_score(age)\<close>. Python's \<^verbatim>\<open>/\<close> on two
  integers raises \<^verbatim>\<open>ZeroDivisionError\<close> when the divisor is zero, before the weight is
  looked up, and otherwise yields a binary64 float. \<^verbatim>\<open>frecency\<close> here is the exact value
  of that expression, a rational number, which the code's float approximates; the
  computation in binary64, with its rounding, its infinities and its
  \<^verbatim>\<open>OverflowError\<close>, is \<open>frecency_binary64\<close> in the section on binary64 below.
\<close>

definition frecency :: "int \<Rightarrow> int \<Rightarrow> py_error + rat" where
  "frecency age count =
     (if age = 0 then Inl ZeroDivisionError
      else Inr ((of_int count / of_int age) * of_int (recency_score age)))"

definition entry_frecency :: "entry \<Rightarrow> int \<Rightarrow> py_error + rat" where
  "entry_frecency e now = frecency (max 100 (now - last_seen e)) (inserts e)"

section \<open>Python's built-ins\<close>

text \<open>
  A function that may raise, applied to every element of a list in order: the first
  error is the result, as the exception would end the comprehension or the sort.
\<close>

fun traverse :: "('a \<Rightarrow> py_error + 'b) \<Rightarrow> 'a list \<Rightarrow> py_error + 'b list" where
  "traverse f [] = Inr []"
| "traverse f (x # xs) =
     (case f x of
        Inl err \<Rightarrow> Inl err
      | Inr y \<Rightarrow> (case traverse f xs of Inl err \<Rightarrow> Inl err | Inr ys \<Rightarrow> Inr (y # ys)))"

text \<open>
  \<^verbatim>\<open>sorted(xs, key=key, reverse=True)\<close>: the keys are computed once for every element,
  the list is reversed, sorted by a stable sort in increasing order of key and reversed
  again, so that elements with equal keys keep their original order.
\<close>

definition sorted_reverse ::
    "('a \<Rightarrow> py_error + 'k::linorder) \<Rightarrow> 'a list \<Rightarrow> py_error + 'a list" where
  "sorted_reverse key xs =
     (case traverse (\<lambda>x. case key x of Inl err \<Rightarrow> Inl err | Inr k \<Rightarrow> Inr (k, x)) xs of
        Inl err \<Rightarrow> Inl err
      | Inr kxs \<Rightarrow> Inr (map snd (rev (sort_key fst (rev kxs)))))"

text \<open>The slice \<^verbatim>\<open>xs[:n]\<close>; a negative \<^verbatim>\<open>n\<close> counts from the end.\<close>

definition slice_to :: "int \<Rightarrow> 'a list \<Rightarrow> 'a list" where
  "slice_to n xs =
     (if 0 \<le> n then take (nat n) xs else take (nat (int (length xs) + n)) xs)"

text \<open>
  \<^verbatim>\<open>dict(items)\<close> and \<^verbatim>\<open>d.update(other)\<close>: the items are stored one after the other; a
  key already present keeps its place and takes the new value, a new key goes last.
  \<^verbatim>\<open>d.pop(k, None)\<close> is \<^const>\<open>AList.delete\<close>.
\<close>

definition dict_update :: "('k \<times> 'v) list \<Rightarrow> ('k \<times> 'v) list \<Rightarrow> ('k \<times> 'v) list" where
  "dict_update d other = fold (\<lambda>(k, v). AList.update k v) other d"

definition dict_of_items :: "('k \<times> 'v) list \<Rightarrow> ('k \<times> 'v) list" where
  "dict_of_items items = dict_update [] items"

section \<open>Merging and limiting histories\<close>

text \<open>
  \<^verbatim>\<open>merge_histories\<close> changes \<^verbatim>\<open>mergee_history\<close> in place; the changed history is the
  result here. An entry of the mergee is changed field by field and keeps its place;
  an entry only the merger has is stored under its path; \<open>merge_entry\<close> is the body of
  the loop over the merger's items. Entries are values: the entry
  objects of the mergee are taken to be distinct from each other and from the merger's,
  as they are at the one call, where the mergee has just been parsed from the file.
\<close>

definition merge_entry :: "path \<times> entry \<Rightarrow> history \<Rightarrow> history" where
  "merge_entry item mergee_history =
     (case item of (path, merger_entry) \<Rightarrow>
        (case map_of mergee_history path of
           Some mergee_entry \<Rightarrow>
             AList.update path
               (mergee_entry
                  \<lparr>last_seen := max (last_seen mergee_entry) (last_seen merger_entry),
                   inserts := max (inserts mergee_entry) (inserts merger_entry),
                   added := min (added mergee_entry) (added merger_entry)\<rparr>)
               mergee_history
         | None \<Rightarrow> AList.update path merger_entry mergee_history))"

definition merge_histories :: "history \<Rightarrow> history \<Rightarrow> history" where
  "merge_histories mergee_history merger_history =
     fold merge_entry merger_history mergee_history"

definition limit_entries :: "history \<Rightarrow> int \<Rightarrow> int \<Rightarrow> py_error + history" where
  "limit_entries entries n now =
     (case sorted_reverse (\<lambda>x. entry_frecency (snd x) now) entries of
        Inl err \<Rightarrow> Inl err
      | Inr ranked \<Rightarrow> Inr (dict_of_items (slice_to n ranked)))"

section \<open>Global state\<close>

text \<open>
  \<^verbatim>\<open>global_state\<close>. The master history holds the entries. A window history holds
  references to entry objects of the master history and is never read for their values
  by the functions below: it is kept as the list of its paths. The set
  \<^verbatim>\<open>paths_to_remove\<close> is a list without repetitions. The generator \<^verbatim>\<open>save_cycle\<close> is
  the index, in \<^verbatim>\<open>cycle(range(SAVE_EVERY))\<close>, of the element it yields next.
  Settings are read from the host and logging prints only; both are left out, and the
  setting \<^verbatim>\<open>max_master_entries\<close> is an argument.
\<close>

record state =
  master_history :: history
  window_histories :: "(nat \<times> path list) list"
  active :: bool
  paths_to_remove :: "path list"
  save_cycle :: nat

definition SAVE_EVERY :: nat where
  "SAVE_EVERY = 50"

definition true_every :: "nat \<Rightarrow> nat" where
  "true_every n = 1 mod n"

definition next_save_cycle :: "nat \<Rightarrow> bool \<times> nat" where
  "next_save_cycle i = (i = 0, Suc i mod SAVE_EVERY)"

definition global_state :: state where
  "global_state =
     \<lparr>master_history = [], window_histories = [], active = False,
      paths_to_remove = [], save_cycle = true_every SAVE_EVERY\<rparr>"

definition get_window_history :: "state \<Rightarrow> nat \<Rightarrow> path list" where
  "get_window_history st window =
     (case map_of (window_histories st) window of None \<Rightarrow> [] | Some h \<Rightarrow> h)"

definition remove_paths_to_remove :: "state \<Rightarrow> state" where
  "remove_paths_to_remove st =
     fold (\<lambda>path_to_remove s.
             s\<lparr>window_histories :=
                  map (\<lambda>(w, h). (w, removeAll path_to_remove h)) (window_histories s),
               master_history := AList.delete path_to_remove (master_history s)\<rparr>)
          (paths_to_remove st) st"

section \<open>The stored file\<close>

text \<open>
  What is at \<^verbatim>\<open>store_path\<close>: nothing; a file that cannot be opened (\<^verbatim>\<open>open\<close> raises
  \<^verbatim>\<open>OSError\<close>, of which \<^verbatim>\<open>IOError\<close> is an alias); a file whose text is not JSON (the
  empty file is one), on which \<^verbatim>\<open>json.load\<close> raises \<^verbatim>\<open>JSONDecodeError\<close>; or a file
  holding a JSON object of entries, given as the \<^verbatim>\<open>dict\<close> that \<^verbatim>\<open>json.load\<close> returns.
  \<^verbatim>\<open>json.dump(..., sort_keys=True)\<close> writes the keys in increasing order.
\<close>

datatype file_state = Missing | Unreadable | Corrupt | Stored history

definition json_dump :: "history \<Rightarrow> file_state" where
  "json_dump h = Stored (sort_key fst h)"

text \<open>
  The comparison \<^verbatim>\<open>len(state_master_history) > 0.7 * len(stored_master_history)\<close> is in
  binary64: \<^verbatim>\<open>0.7\<close> is the float \<open>6305039478318694 / 2^53\<close>, the length is converted
  to a float, the product is rounded to 53 significant bits, to nearest with ties to
  even, and the integer on the left is compared with it exactly.
\<close>

fun bit_length :: "nat \<Rightarrow> nat" where
  "bit_length n = (if n = 0 then 0 else Suc (bit_length (n div 2)))"

declare bit_length.simps [simp del]

definition round_to_53 :: "nat \<Rightarrow> nat" where
  "round_to_53 n =
     (if bit_length n \<le> 53 then n
      else
        (let s = bit_length n - 53;
             q = n div 2 ^ s;
             r = n mod 2 ^ s;
             h = 2 ^ (s - 1)
         in (if h < r \<or> (r = h \<and> odd q) then q + 1 else q) * 2 ^ s))"

definition float_0_7_times :: "nat \<Rightarrow> rat" where
  "float_0_7_times k = of_nat (round_to_53 (6305039478318694 * round_to_53 k)) / 2 ^ 53"

definition write_allowed :: "nat \<Rightarrow> nat \<Rightarrow> bool" where
  "write_allowed n_state n_stored \<longleftrightarrow> float_0_7_times n_stored < of_nat n_state"

text \<open>
  \<^verbatim>\<open>load_master_history_from_file\<close> catches \<^verbatim>\<open>IOError\<close> only; the stored history is
  merged with the one in memory and put into the master history with \<^verbatim>\<open>update\<close>.
\<close>

definition load_master_history_from_file :: "file_state \<Rightarrow> state \<Rightarrow> py_error + state" where
  "load_master_history_from_file file st =
     (case file of
        Missing \<Rightarrow> Inr st
      | Unreadable \<Rightarrow> Inr st
      | Corrupt \<Rightarrow> Inl JSONDecodeError
      | Stored stored_master_history \<Rightarrow>
          Inr (st\<lparr>master_history :=
                    dict_update (master_history st)
                      (merge_histories stored_master_history (master_history st))\<rparr>))"

text \<open>
  \<^verbatim>\<open>save_master_history_to_file\<close> returns the state after the pending removals, and
  either the error that leaves the function or the file as it is afterwards.
  \<^verbatim>\<open>open(store_path, 'a+')\<close> creates a missing file, empty.
\<close>

definition save_master_history_to_file ::
    "file_state \<Rightarrow> state \<Rightarrow> int \<Rightarrow> int \<Rightarrow> state \<times> (py_error + file_state)" where
  "save_master_history_to_file file st n now =
     (let st' = remove_paths_to_remove st in
      (st',
       (case file of
          Unreadable \<Rightarrow> Inl IOError
        | _ \<Rightarrow>
          (let opened = (case file of Missing \<Rightarrow> Corrupt | _ \<Rightarrow> file);
               stored_master_history = (case opened of Stored h \<Rightarrow> h | _ \<Rightarrow> [])
           in (case limit_entries (master_history st') n now of
                 Inl err \<Rightarrow> Inl err
               | Inr state_master_history \<Rightarrow>
                   if write_allowed (length state_master_history) (length stored_master_history)
                   then Inr (json_dump state_master_history)
                   else Inr opened)))))"

text \<open>
  \<^verbatim>\<open>record_seen_path_in_window\<close>: the master history is a \<^verbatim>\<open>defaultdict\<close>, so that
  looking up a path it does not have stores a new entry, made at the clock's reading
  \<^verbatim>\<open>clock\<close>. The result is the state, the file, and the error, if any, with which the
  save left the function; the entry is updated before the save.
\<close>

definition record_seen_path_in_window ::
    "state \<Rightarrow> file_state \<Rightarrow> int \<Rightarrow> int \<Rightarrow> nat \<Rightarrow> path \<Rightarrow> int
       \<Rightarrow> state \<times> file_state \<times> py_error option" where
  "record_seen_path_in_window st file n clock window path now =
     (let window_history = get_window_history st window;
          master = (case map_of (master_history st) path of
                      None \<Rightarrow> AList.update path (new_history_entry clock) (master_history st)
                    | Some _ \<Rightarrow> master_history st);
          entry = (case map_of master path of
                     None \<Rightarrow> new_history_entry clock | Some e \<Rightarrow> e);
          entry' = entry\<lparr>last_seen := now, inserts := inserts entry + 1\<rparr>;
          (save, cycle) = next_save_cycle (save_cycle st);
          st1 = st\<lparr>master_history := AList.update path entry' master,
                  window_histories :=
                    AList.update window
                      (if path \<in> set window_history then window_history
                       else window_history @ [path])
                      (window_histories st),
                  save_cycle := cycle\<rparr>
      in if save then
           (case save_master_history_to_file file st1 n now of
              (st2, Inl err) \<Rightarrow> (st2, file, Some err)
            | (st2, Inr file') \<Rightarrow> (st2, file', None))
         else (st1, file, None))"

text \<open>Visits to one path, one after the other, each with its time and clock reading.\<close>

fun record_visits ::
    "state \<times> file_state \<Rightarrow> int \<Rightarrow> nat \<Rightarrow> path \<Rightarrow> (int \<times> int) list \<Rightarrow> state \<times> file_state" where
  "record_visits world n window path [] = world"
| "record_visits world n window path ((now, clock) # visits) =
     (case record_seen_path_in_window (fst world) (snd world) n clock window path now of
        (st, file, _) \<Rightarrow> record_visits (st, file) n window path visits)"

section \<open>The panel\<close>







section \<open>Frecency in binary64\<close>

text \<open>
  \<^verbatim>\<open>frecency\<close> computes \<^verbatim>\<open>(count / age) * recency_score(age)\<close> in floats. The functions
  of this section follow that computation bit for bit; \<^const>\<open>frecency\<close> above is its
  exact value.

  A float is a rational number (every finite binary64 value is one) or an infinity.
  The two zeros \<^verbatim>\<open>0.0\<close> and \<^verbatim>\<open>-0.0\<close> compare equal and are one value here. No \<^verbatim>\<open>nan\<close>
  arises in \<^verbatim>\<open>frecency\<close>: the quotient is finite and the weight is not zero.
\<close>

datatype float64 = Finite rat | PosInf | NegInf

text \<open>
  \<open>ilog2 x\<close> is the exponent of a positive \<open>x\<close>: the integer \<open>e\<close> with
  \<open>2^e \<le> x < 2^(e+1)\<close>.
\<close>

definition ilog2 :: "rat \<Rightarrow> int" where
  "ilog2 x =
     (if 1 \<le> x then int (bit_length (nat \<lfloor>x\<rfloor>)) - 1
      else - int (bit_length (nat \<lceil>1 / x\<rceil> - 1)))"

definition round_half_even :: "rat \<Rightarrow> int" where
  "round_half_even y =
     (let m = \<lfloor>y\<rfloor>; f = y - of_int m
      in if 1 / 2 < f \<or> (f = 1 / 2 \<and> odd m) then m + 1 else m)"

text \<open>
  Rounding to binary64, to nearest with ties to even. A normal float has 53
  significant bits, so the spacing of the floats at \<open>x\<close> is \<open>2^(ilog2 x - 52)\<close>; below
  \<open>2^-1022\<close> the numbers are subnormal and the spacing stays \<open>2^-1074\<close>. The exponent is
  not bounded above here: the two operations below test the rounded value against
  \<open>2^1024\<close>, as IEEE 754 does.
\<close>

definition round_nonneg :: "rat \<Rightarrow> rat" where
  "round_nonneg x =
     (if x = 0 then 0
      else (let k = max (ilog2 x) (- 1022) - 52
            in of_int (round_half_even (x / 2 powi k)) * 2 powi k))"

definition round_binary64 :: "rat \<Rightarrow> rat" where
  "round_binary64 x = (if x < 0 then - round_nonneg (- x) else round_nonneg x)"

text \<open>
  \<^verbatim>\<open>a / b\<close> on two Python integers: \<^verbatim>\<open>ZeroDivisionError\<close> when \<^verbatim>\<open>b\<close> is zero; otherwise
  the quotient correctly rounded to a float, and \<^verbatim>\<open>OverflowError\<close> (\<^verbatim>\<open>integer division
  result too large for a float\<close>) when the rounded quotient is beyond the largest float.
  A quotient too small for a float is rounded to a subnormal number or to zero.
\<close>

definition int_true_divide :: "int \<Rightarrow> int \<Rightarrow> py_error + rat" where
  "int_true_divide a b =
     (if b = 0 then Inl ZeroDivisionError
      else (let q = round_binary64 (of_int a / of_int b)
            in if 2 ^ 1024 \<le> \<bar>q\<bar> then Inl OverflowError else Inr q))"

text \<open>
  \<^verbatim>\<open>x * w\<close> on a finite float and a weight of \<^verbatim>\<open>recency_score\<close>: the weight (1, 2, 4, 6
  or 8) is converted to a float exactly, the product is rounded, and a product beyond
  the largest float is an infinity; no exception is raised.
\<close>

definition float_times_int :: "rat \<Rightarrow> int \<Rightarrow> float64" where
  "float_times_int x w =
     (let p = round_binary64 (x * of_int w)
      in if 2 ^ 1024 \<le> p then PosInf else if p \<le> - (2 ^ 1024) then NegInf else Finite p)"

definition frecency_binary64 :: "int \<Rightarrow> int \<Rightarrow> py_error + float64" where
  "frecency_binary64 age count =
     (case int_true_divide count age of
        Inl err \<Rightarrow> Inl err
      | Inr q \<Rightarrow> Inr (float_times_int q (recency_score age)))"

section \<open>Properties of the score\<close>

lemma recency_score_cases:
  "recency_score ds \<in> {1, 2, 4, 6, 8}"
  by (simp add: recency_score_def)

lemma recency_score_pos: "0 < recency_score ds"
  by (simp add: recency_score_def)

lemma recency_score_antimono: "a \<le> b \<Longrightarrow> recency_score b \<le> recency_score a"
  by (simp add: recency_score_def SECONDS_PER_MINUTE_def SECONDS_PER_HOUR_def
      SECONDS_PER_DAY_def SECONDS_PER_WEEK_def)

lemma entry_frecency_Inr:
  "entry_frecency e now =
     Inr ((of_int (inserts e) / of_int (max 100 (now - last_seen e)))
          * of_int (recency_score (max 100 (now - last_seen e))))"
  by (simp add: entry_frecency_def frecency_def max_def)

text \<open>
  Claim C10. Scoring an entry passes the age \<^verbatim>\<open>max(100, now - last_seen)\<close> to the tier
  function. For every entry and every time the score is computed without error as
  \<^verbatim>\<open>(inserts / age) * weight\<close> with that age, and the weight is at most 6: the first tier
  (age below 60 seconds, weight 8) is never reached.
\<close>

theorem entry_frecency_weight_at_most_6:
  "entry_frecency e now =
     Inr ((of_int (inserts e) / of_int (max 100 (now - last_seen e)))
          * of_int (recency_score (max 100 (now - last_seen e))))
   \<and> recency_score (max 100 (now - last_seen e)) \<le> 6
   \<and> recency_score (max 100 (now - last_seen e)) \<noteq> 8
   \<and> \<not> max 100 (now - last_seen e) < SECONDS_PER_MINUTE"
proof -
  have age: "100 \<le> max 100 (now - last_seen e)"
    by simp
  have tier: "\<not> max 100 (now - last_seen e) < SECONDS_PER_MINUTE"
    using age by (simp add: SECONDS_PER_MINUTE_def)
  have w: "recency_score (max 100 (now - last_seen e)) \<le> 6"
    using tier by (simp add: recency_score_def)
  from w have "recency_score (max 100 (now - last_seen e)) \<noteq> 8"
    by linarith
  with w tier show ?thesis
    by (simp only: entry_frecency_Inr simp_thms)
qed

section \<open>Properties of the merge\<close>


lemma entry_fields_eq:
  "e\<lparr>last_seen := l, inserts := i, added := a\<rparr> = \<lparr>added = a, last_seen = l, inserts = i\<rparr>"
  by (cases e) simp

lemma map_of_merge_entry:
  "map_of (merge_entry (p, b) h) =
     (map_of h)(p \<mapsto>
        (case map_of h p of
           None \<Rightarrow> b
         | Some a \<Rightarrow>
             \<lparr>added = min (added a) (added b), last_seen = max (last_seen a) (last_seen b),
              inserts = max (inserts a) (inserts b)\<rparr>))"
  by (simp add: merge_entry_def update_conv' entry_fields_eq split: option.split)

lemma map_of_fold_merge_entry_other:
  "p \<notin> fst ` set merger \<Longrightarrow> map_of (fold merge_entry merger h) p = map_of h p"
proof (induction merger arbitrary: h)
  case Nil
  then show ?case by simp
next
  case (Cons item merger)
  obtain q b where item: "item = (q, b)" by (cases item)
  with Cons.prems have "q \<noteq> p" and "p \<notin> fst ` set merger" by auto
  with Cons.IH [of "merge_entry item h"] item show ?case
    by (simp add: map_of_merge_entry)
qed

lemma map_of_fold_merge_entry_same:
  "distinct (map fst merger) \<Longrightarrow> map_of merger p = Some b \<Longrightarrow>
   map_of (fold merge_entry merger h) p =
     Some (case map_of h p of
             None \<Rightarrow> b
           | Some a \<Rightarrow>
               \<lparr>added = min (added a) (added b), last_seen = max (last_seen a) (last_seen b),
                inserts = max (inserts a) (inserts b)\<rparr>)"
proof (induction merger arbitrary: h)
  case Nil
  then show ?case by simp
next
  case (Cons item merger)
  obtain q c where item: "item = (q, c)" by (cases item)
  show ?case
  proof (cases "q = p")
    case True
    with Cons.prems item have "c = b" and "p \<notin> fst ` set merger" by auto
    with True item show ?thesis
      by (simp add: map_of_fold_merge_entry_other map_of_merge_entry)
  next
    case False
    with Cons.prems item have "distinct (map fst merger)" and "map_of merger p = Some b"
      by auto
    from Cons.IH [OF this, of "merge_entry item h"] False item show ?thesis
      by (simp add: map_of_merge_entry)
  qed
qed

lemma map_of_merge_histories:
  assumes "distinct (map fst merger)"
  shows "map_of (merge_histories mergee merger) p =
     (case map_of merger p of
        None \<Rightarrow> map_of mergee p
      | Some b \<Rightarrow>
          Some (case map_of mergee p of
                  None \<Rightarrow> b
                | Some a \<Rightarrow>
                    \<lparr>added = min (added a) (added b),
                     last_seen = max (last_seen a) (last_seen b),
                     inserts = max (inserts a) (inserts b)\<rparr>))"
proof (cases "map_of merger p")
  case None
  then have "p \<notin> fst ` set merger"
    by (simp add: map_of_eq_None_iff)
  with None show ?thesis
    by (simp add: merge_histories_def map_of_fold_merge_entry_other)
next
  case (Some b)
  with assms show ?thesis
    by (simp add: merge_histories_def map_of_fold_merge_entry_same)
qed

text \<open>
  Claim C4. For every mergee, every merger (a \<^verbatim>\<open>dict\<close>: its keys are distinct) and
  every path, the entry of the merged history is: for a path of both, the entry with
  \<^verbatim>\<open>last_seen\<close> the maximum, \<^verbatim>\<open>inserts\<close> the maximum and \<^verbatim>\<open>added\<close> the minimum of the
  two; for a path of the merger only, the merger's entry unchanged; for a path of the
  mergee only, the mergee's entry; and no entry for a path of neither. The witness is
  the scenario of the claim: stored \<^verbatim>\<open>{added 1000, last_seen 1000, inserts 1}\<close>, in
  memory \<^verbatim>\<open>{added 1000, last_seen 2000, inserts 3}\<close>.
\<close>

theorem merge_histories_entry:
  assumes "distinct (map fst merger)"
  shows "map_of (merge_histories mergee merger) p =
     (case map_of merger p of
        None \<Rightarrow> map_of mergee p
      | Some b \<Rightarrow>
          (case map_of mergee p of
             None \<Rightarrow> Some b
           | Some a \<Rightarrow>
               Some \<lparr>added = min (added a) (added b),
                     last_seen = max (last_seen a) (last_seen b),
                     inserts = max (inserts a) (inserts b)\<rparr>))"
  using map_of_merge_histories [OF assms, of mergee p]
  by (simp split: option.splits)

theorem merge_histories_entry_witness:
  "distinct (map fst [(''/a'', \<lparr>added = 1000, last_seen = 2000, inserts = 3\<rparr>)])
   \<and> map_of (merge_histories [(''/a'', \<lparr>added = 1000, last_seen = 1000, inserts = 1\<rparr>)]
               [(''/a'', \<lparr>added = 1000, last_seen = 2000, inserts = 3\<rparr>)]) ''/a''
     = Some \<lparr>added = 1000, last_seen = 2000, inserts = 3\<rparr>
   \<and> merge_histories [(''/a'', \<lparr>added = 1000, last_seen = 1000, inserts = 1\<rparr>)]
        [(''/a'', \<lparr>added = 1000, last_seen = 2000, inserts = 3\<rparr>)]
     = [(''/a'', \<lparr>added = 1000, last_seen = 2000, inserts = 3\<rparr>)]"
  using merge_histories_entry
    [of "[(''/a'', \<lparr>added = 1000, last_seen = 2000, inserts = 3\<rparr>)]"
        "[(''/a'', \<lparr>added = 1000, last_seen = 1000, inserts = 1\<rparr>)]" "''/a''"]
  by (simp add: merge_histories_def merge_entry_def)

text \<open>
  Claim C5. For histories \<open>A\<close> and \<open>B\<close> and a path present in both, merging \<open>B\<close> into
  \<open>A\<close> and merging \<open>A\<close> into \<open>B\<close> give that path the same entry: the minimum of the
  two \<^verbatim>\<open>added\<close>, the maximum of the two \<^verbatim>\<open>last_seen\<close> and of the two \<^verbatim>\<open>inserts\<close>.
\<close>

theorem merge_histories_commutes_on_shared:
  assumes "distinct (map fst A)" and "distinct (map fst B)"
    and "map_of A p = Some a" and "map_of B p = Some b"
  shows "map_of (merge_histories A B) p = map_of (merge_histories B A) p
     \<and> map_of (merge_histories A B) p =
         Some \<lparr>added = min (added a) (added b), last_seen = max (last_seen a) (last_seen b),
               inserts = max (inserts a) (inserts b)\<rparr>"
  using assms
  by (simp add: map_of_merge_histories min.commute max.commute)

theorem merge_histories_commutes_on_shared_witness:
  "distinct (map fst [(''/a'', \<lparr>added = 5, last_seen = 70, inserts = 2\<rparr>),
                      (''/b'', \<lparr>added = 1, last_seen = 2, inserts = 3\<rparr>)])
   \<and> distinct (map fst [(''/c'', \<lparr>added = 4, last_seen = 5, inserts = 6\<rparr>),
                        (''/a'', \<lparr>added = 9, last_seen = 50, inserts = 4\<rparr>)])
   \<and> map_of (merge_histories
         [(''/a'', \<lparr>added = 5, last_seen = 70, inserts = 2\<rparr>),
          (''/b'', \<lparr>added = 1, last_seen = 2, inserts = 3\<rparr>)]
         [(''/c'', \<lparr>added = 4, last_seen = 5, inserts = 6\<rparr>),
          (''/a'', \<lparr>added = 9, last_seen = 50, inserts = 4\<rparr>)]) ''/a''
     = map_of (merge_histories
         [(''/c'', \<lparr>added = 4, last_seen = 5, inserts = 6\<rparr>),
          (''/a'', \<lparr>added = 9, last_seen = 50, inserts = 4\<rparr>)]
         [(''/a'', \<lparr>added = 5, last_seen = 70, inserts = 2\<rparr>),
          (''/b'', \<lparr>added = 1, last_seen = 2, inserts = 3\<rparr>)]) ''/a''
   \<and> map_of (merge_histories
         [(''/a'', \<lparr>added = 5, last_seen = 70, inserts = 2\<rparr>),
          (''/b'', \<lparr>added = 1, last_seen = 2, inserts = 3\<rparr>)]
         [(''/c'', \<lparr>added = 4, last_seen = 5, inserts = 6\<rparr>),
          (''/a'', \<lparr>added = 9, last_seen = 50, inserts = 4\<rparr>)]) ''/a''
     = Some \<lparr>added = 5, last_seen = 70, inserts = 4\<rparr>"
  using merge_histories_commutes_on_shared
    [of "[(''/a'', \<lparr>added = 5, last_seen = 70, inserts = 2\<rparr>),
          (''/b'', \<lparr>added = 1, last_seen = 2, inserts = 3\<rparr>)]"
        "[(''/c'', \<lparr>added = 4, last_seen = 5, inserts = 6\<rparr>),
          (''/a'', \<lparr>added = 9, last_seen = 50, inserts = 4\<rparr>)]"
        "''/a''" "\<lparr>added = 5, last_seen = 70, inserts = 2\<rparr>"
        "\<lparr>added = 9, last_seen = 50, inserts = 4\<rparr>"]
  by auto

section \<open>Properties of the eviction\<close>


lemma traverse_Inr:
  "(\<And>x. x \<in> set xs \<Longrightarrow> f x = Inr (g x)) \<Longrightarrow> traverse f xs = Inr (map g xs)"
  by (induction xs) simp_all

lemma insort_key_decorated:
  "insort_key fst (k x, x) (map (\<lambda>y. (k y, y)) ys) = map (\<lambda>y. (k y, y)) (insort_key k x ys)"
  by (induction ys) simp_all

lemma sort_key_decorated:
  "sort_key fst (map (\<lambda>y. (k y, y)) xs) = map (\<lambda>y. (k y, y)) (sort_key k xs)"
  by (induction xs) (simp_all add: insort_key_decorated)

lemma sorted_reverse_Inr:
  assumes "\<And>x. x \<in> set xs \<Longrightarrow> key x = Inr (k x)"
  shows "sorted_reverse key xs = Inr (rev (sort_key k (rev xs)))"
proof -
  have "traverse (\<lambda>x. case key x of Inl err \<Rightarrow> Inl err | Inr c \<Rightarrow> Inr (c, x)) xs
          = Inr (map (\<lambda>y. (k y, y)) xs)"
    by (rule traverse_Inr) (simp add: assms)
  moreover have "map snd (rev (sort_key fst (rev (map (\<lambda>y. (k y, y)) xs))))
          = rev (sort_key k (rev xs))"
    by (simp add: rev_map sort_key_decorated o_def)
  ultimately show ?thesis
    by (simp add: sorted_reverse_def)
qed

lemma dict_update_fresh:
  "distinct (map fst (d @ items)) \<Longrightarrow> dict_update d items = d @ items"
proof (induction items arbitrary: d)
  case Nil
  then show ?case by (simp add: dict_update_def)
next
  case (Cons item items)
  obtain p v where item: "item = (p, v)" by (cases item)
  with Cons.prems have fresh: "p \<notin> fst ` set d" by auto
  then have upd: "AList.update p v d = d @ [(p, v)]"
    by (induction d) auto
  from Cons.prems item have "distinct (map fst ((d @ [(p, v)]) @ items))" by simp
  from Cons.IH [OF this] upd item show ?case
    by (simp add: dict_update_def)
qed

lemma dict_of_items_distinct:
  "distinct (map fst items) \<Longrightarrow> dict_of_items items = items"
  using dict_update_fresh [of "[]" items] by (simp add: dict_of_items_def)

lemma distinct_keys_ranked:
  "distinct (map fst xs) \<Longrightarrow> distinct (map fst (rev (sort_key k (rev xs))))"
  by (simp add: distinct_map)

lemma limit_entries_Inr:
  assumes "distinct (map fst entries)" and "0 \<le> n"
  shows "limit_entries entries n now =
           Inr (take (nat n)
                  (rev (sort_key (\<lambda>x. projr (entry_frecency (snd x) now)) (rev entries))))"
proof -
  let ?k = "\<lambda>x :: path \<times> entry. projr (entry_frecency (snd x) now)"
  have key: "entry_frecency (snd x) now = Inr (?k x)" for x :: "path \<times> entry"
    by (simp add: entry_frecency_Inr)
  have ranked: "sorted_reverse (\<lambda>x. entry_frecency (snd x) now) entries
                  = Inr (rev (sort_key ?k (rev entries)))"
    by (rule sorted_reverse_Inr) (rule key)
  have "distinct (map fst (take (nat n) (rev (sort_key ?k (rev entries)))))"
    using distinct_keys_ranked [OF assms(1), of ?k]
    by (simp add: take_map [symmetric])
  then show ?thesis
    using ranked assms(2) by (simp add: limit_entries_def slice_to_def dict_of_items_distinct)
qed

lemma ranked_take_fixed:
  fixes k :: "'a \<Rightarrow> 'k::linorder"
  shows "rev (sort_key k (rev (take m (rev (sort_key k ys))))) = take m (rev (sort_key k ys))"
proof -
  have "sorted (map k (rev (take m (rev (sort_key k ys)))))"
    by (simp add: rev_take drop_map [symmetric] sorted_wrt_drop)
  then have "sort_key k (rev (take m (rev (sort_key k ys)))) = rev (take m (rev (sort_key k ys)))"
    by (rule sort_key_id_if_sorted)
  then show ?thesis by simp
qed

text \<open>
  Claim C9. For every store (a \<^verbatim>\<open>dict\<close>: its keys are distinct), every bound \<open>n\<close> of at
  least 0 and every time, \<^verbatim>\<open>limit_entries\<close> returns a history, and applied to that
  history with the same bound and time it returns it again: the same entries in the
  same order. The proof uses of the score only that it is computed without error and
  that scores are linearly ordered; the stable sort leaves a ranked list as it is.
\<close>

theorem limit_entries_idempotent:
  assumes "distinct (map fst entries)" and "0 \<le> n"
  shows "\<exists>limited. limit_entries entries n now = Inr limited
           \<and> limit_entries limited n now = Inr limited"
proof -
  let ?k = "\<lambda>x :: path \<times> entry. projr (entry_frecency (snd x) now)"
  let ?limited = "take (nat n) (rev (sort_key ?k (rev entries)))"
  have first: "limit_entries entries n now = Inr ?limited"
    by (rule limit_entries_Inr [OF assms])
  have "distinct (map fst ?limited)"
    using distinct_keys_ranked [OF assms(1), of ?k] by (simp add: take_map [symmetric])
  then have "limit_entries ?limited n now
               = Inr (take (nat n) (rev (sort_key ?k (rev ?limited))))"
    using assms(2) by (rule limit_entries_Inr)
  also have "rev (sort_key ?k (rev ?limited)) = ?limited"
    by (rule ranked_take_fixed)
  also have "take (nat n) ?limited = ?limited"
    by simp
  finally show ?thesis
    using first by blast
qed

theorem limit_entries_idempotent_witness:
  "distinct (map fst [(''/a'', \<lparr>added = 1000, last_seen = 1000, inserts = 1\<rparr>),
                      (''/b'', \<lparr>added = 1000, last_seen = 2000, inserts = 3\<rparr>),
                      (''/c'', \<lparr>added = 1000, last_seen = 1000, inserts = 1\<rparr>)])
   \<and> (0 :: int) \<le> 2
   \<and> (\<exists>limited.
        limit_entries [(''/a'', \<lparr>added = 1000, last_seen = 1000, inserts = 1\<rparr>),
                       (''/b'', \<lparr>added = 1000, last_seen = 2000, inserts = 3\<rparr>),
                       (''/c'', \<lparr>added = 1000, last_seen = 1000, inserts = 1\<rparr>)] 2 5000
          = Inr limited
        \<and> limit_entries limited 2 5000 = Inr limited)"
  using limit_entries_idempotent
    [of "[(''/a'', \<lparr>added = 1000, last_seen = 1000, inserts = 1\<rparr>),
          (''/b'', \<lparr>added = 1000, last_seen = 2000, inserts = 3\<rparr>),
          (''/c'', \<lparr>added = 1000, last_seen = 1000, inserts = 1\<rparr>)]" 2 5000]
  by simp

section \<open>The float comparison of the safety check\<close>

text \<open>
  The bit length is exact, rounding to 53 bits changes a number by at most one part in
  \<open>2^53\<close>, and so, for a stored history of at most \<open>2^49\<close> entries, the comparison in
  floats agrees with the comparison of \<open>10 * len(state)\<close> with \<open>7 * len(stored)\<close> whenever
  the two differ.
\<close>



lemma bit_length_0: "bit_length 0 = 0"
  by (simp add: bit_length.simps)

lemma bit_length_pos: "0 < n \<Longrightarrow> bit_length n = Suc (bit_length (n div 2))"
  by (subst bit_length.simps) simp

lemma bit_length_bounds:
  "0 < n \<Longrightarrow> 2 ^ (bit_length n - 1) \<le> n \<and> n < 2 ^ bit_length n"
proof (induction n rule: bit_length.induct)
  case (1 n)
  show ?case
  proof (cases "n div 2 = 0")
    case True
    with "1.prems" have "n = 1" by (simp add: div_eq_0_iff) 
    then show ?thesis
      by (simp add: bit_length_pos bit_length_0)
  next
    case False
    then have pos: "0 < n div 2" by simp
    define c where "c = bit_length (n div 2)"
    have bl: "bit_length n = Suc c"
      using "1.prems" by (simp add: c_def bit_length_pos)
    from "1.IH" [OF _ pos] "1.prems"
    have lo: "2 ^ (c - 1) \<le> n div 2" and hi: "n div 2 < 2 ^ c"
      by (simp_all add: c_def)
    have "0 < c"
      by (simp add: c_def bit_length_pos [OF pos])
    then have pw: "(2::nat) ^ c = 2 * 2 ^ (c - 1)"
      by (cases c) simp_all
    have d: "2 * (n div 2) \<le> n" "n < 2 * (n div 2) + 2"
      by arith+
    from lo hi pw d have "2 ^ c \<le> n \<and> n < 2 * 2 ^ c"
      by linarith
    then show ?thesis
      by (simp add: bl)
  qed
qed

lemma bit_length_small: "n < 2 ^ 53 \<Longrightarrow> bit_length n \<le> 53"
proof (cases "n = 0")
  case True
  then show ?thesis by (simp add: bit_length_0)
next
  case False
  assume "n < 2 ^ 53"
  with False bit_length_bounds [of n] have "(2::nat) ^ (bit_length n - 1) < 2 ^ 53"
    by simp
  then have "bit_length n - 1 < 53"
    by (simp only: power_strict_increasing_iff [of 2] one_less_numeral_iff semiring_norm)
  then show ?thesis by simp
qed

lemma round_to_53_small: "n < 2 ^ 53 \<Longrightarrow> round_to_53 n = n"
  using bit_length_small [of n] by (simp add: round_to_53_def)

lemma round_to_53_bounds:
  "n * 9007199254740991 \<le> round_to_53 n * 9007199254740992
   \<and> round_to_53 n * 9007199254740992 \<le> n * 9007199254740993"
proof (cases "bit_length n \<le> 53")
  case True
  then show ?thesis
    by (simp add: round_to_53_def)
next
  case False
  define s where "s = bit_length n - 53"
  define h :: nat where "h = 2 ^ (s - 1)"
  define t :: nat where "t = 2 ^ s"
  define q where "q = n div t"
  define r where "r = n mod t"
  define m where "m = q * t"
  from False have s: "0 < s" and b: "bit_length n - 1 = (s - 1) + 53"
    by (simp_all add: s_def)
  from False have "0 < n"
    by (cases "n = 0") (simp_all add: bit_length_0)
  then have "2 ^ (bit_length n - 1) \<le> n"
    using bit_length_bounds [of n] by blast
  moreover have "(2::nat) ^ (bit_length n - 1) = h * 2 ^ 53"
    unfolding b h_def by (rule power_add)
  ultimately have "h * 2 ^ 53 \<le> n"
    by (simp only:)
  then have big: "h * 9007199254740992 \<le> n"
    by simp
  from s have t: "t = 2 * h"
    by (cases s) (simp_all add: t_def h_def)
  have n: "n = m + r"
    by (simp add: m_def q_def r_def)
  have r: "r < t"
    by (simp add: r_def t_def)
  have rd: "round_to_53 n = (if h < r \<or> (r = h \<and> odd q) then q + 1 else q) * t"
    using False by (simp add: round_to_53_def Let_def s_def h_def t_def q_def r_def)
  show ?thesis
  proof (cases "h < r \<or> (r = h \<and> odd q)")
    case True
    then have hr: "h \<le> r" by auto
    from True rd have up: "round_to_53 n = m + t"
      by (simp add: m_def)
    show ?thesis
      unfolding up using big t n r hr by simp
  next
    case False
    then have rh: "r \<le> h" by auto
    from False rd have down: "round_to_53 n = m"
      by (auto simp add: m_def)
    show ?thesis
      unfolding down using big t n r rh by simp
  qed
qed

lemma write_allowed_iff:
  "write_allowed a k \<longleftrightarrow> round_to_53 (6305039478318694 * round_to_53 k) < a * 2 ^ 53"
proof -
  have "write_allowed a k \<longleftrightarrow>
          (of_nat (round_to_53 (6305039478318694 * round_to_53 k)) :: rat)
            < of_nat (a * 2 ^ 53)"
    by (simp add: write_allowed_def float_0_7_times_def pos_divide_less_eq)
  then show ?thesis
    by (simp only: of_nat_less_iff)
qed

lemma write_refused_below:
  assumes "10 * a < 7 * k" and "k \<le> 2 ^ 49"
  shows "\<not> write_allowed a k"
proof -
  from assms(2) have "k < 2 ^ 53" by simp
  then have K: "round_to_53 k = k" by (rule round_to_53_small)
  have "(6305039478318694 * k) * 9007199254740991
          \<le> round_to_53 (6305039478318694 * k) * 9007199254740992"
    using round_to_53_bounds [of "6305039478318694 * k"] by blast
  with assms show ?thesis
    by (simp add: write_allowed_iff K)
qed

lemma write_allowed_above:
  assumes "7 * k < 10 * a" and "k \<le> 2 ^ 49"
  shows "write_allowed a k"
proof -
  from assms(2) have "k < 2 ^ 53" by simp
  then have K: "round_to_53 k = k" by (rule round_to_53_small)
  have "round_to_53 (6305039478318694 * k) * 9007199254740992
          \<le> (6305039478318694 * k) * 9007199254740993"
    using round_to_53_bounds [of "6305039478318694 * k"] by blast
  with assms show ?thesis
    by (simp add: write_allowed_iff K)
qed

section \<open>Properties of the save and the load\<close>


lemma sorted_reverse_total:
  "(\<And>x. x \<in> set xs \<Longrightarrow> key x = Inr (k x)) \<Longrightarrow>
   \<exists>ranked. sorted_reverse key xs = Inr ranked \<and> set ranked = set xs \<and> length ranked = length xs"
  by (simp add: sorted_reverse_Inr)

lemma set_update_subset: "set (AList.update p v d) \<subseteq> insert (p, v) (set d)"
  by (induction d) auto

lemma set_dict_update_subset: "set (dict_update d items) \<subseteq> set d \<union> set items"
proof (induction items arbitrary: d)
  case Nil
  then show ?case by (simp add: dict_update_def)
next
  case (Cons item items)
  obtain p v where item: "item = (p, v)" by (cases item)
  have "set (dict_update (AList.update p v d) items) \<subseteq> set (AList.update p v d) \<union> set items"
    using Cons.IH [of "AList.update p v d"] .
  with set_update_subset [of p v d] item show ?case
    by (auto simp add: dict_update_def)
qed

lemma set_slice_to_subset: "set (slice_to n xs) \<subseteq> set xs"
  by (simp add: slice_to_def set_take_subset)

lemma limit_entries_total:
  "\<exists>limited. limit_entries entries n now = Inr limited \<and> set limited \<subseteq> set entries"
proof -
  let ?k = "\<lambda>x :: path \<times> entry. projr (entry_frecency (snd x) now)"
  have "sorted_reverse (\<lambda>x. entry_frecency (snd x) now) entries
          = Inr (rev (sort_key ?k (rev entries)))"
    by (rule sorted_reverse_Inr) (simp add: entry_frecency_Inr)
  moreover have "set (dict_of_items (slice_to n (rev (sort_key ?k (rev entries))))) \<subseteq> set entries"
  proof -
    have "set (slice_to n (rev (sort_key ?k (rev entries))))
            \<subseteq> set (rev (sort_key ?k (rev entries)))"
      by (rule set_slice_to_subset)
    then have "set (slice_to n (rev (sort_key ?k (rev entries)))) \<subseteq> set entries"
      by simp
    with set_dict_update_subset [of "[]" "slice_to n (rev (sort_key ?k (rev entries)))"]
    show ?thesis
      by (simp add: dict_of_items_def)
  qed
  ultimately show ?thesis
    by (simp add: limit_entries_def)
qed

lemma remove_paths_fold:
  "paths_to_remove (fold (\<lambda>path_to_remove s.
             s\<lparr>window_histories :=
                  map (\<lambda>(w, h). (w, removeAll path_to_remove h)) (window_histories s),
               master_history := AList.delete path_to_remove (master_history s)\<rparr>) ps st)
     = paths_to_remove st
   \<and> save_cycle (fold (\<lambda>path_to_remove s.
             s\<lparr>window_histories :=
                  map (\<lambda>(w, h). (w, removeAll path_to_remove h)) (window_histories s),
               master_history := AList.delete path_to_remove (master_history s)\<rparr>) ps st)
     = save_cycle st
   \<and> set (master_history (fold (\<lambda>path_to_remove s.
             s\<lparr>window_histories :=
                  map (\<lambda>(w, h). (w, removeAll path_to_remove h)) (window_histories s),
               master_history := AList.delete path_to_remove (master_history s)\<rparr>) ps st))
     \<subseteq> set (master_history st)
   \<and> (p \<notin> set ps \<longrightarrow>
        map_of (master_history (fold (\<lambda>path_to_remove s.
             s\<lparr>window_histories :=
                  map (\<lambda>(w, h). (w, removeAll path_to_remove h)) (window_histories s),
               master_history := AList.delete path_to_remove (master_history s)\<rparr>) ps st)) p
        = map_of (master_history st) p)"
proof (induction ps arbitrary: st)
  case Nil
  then show ?case by simp
next
  case (Cons a ps)
  have "set (AList.delete a (master_history st)) \<subseteq> set (master_history st)"
    by (auto simp add: AList.delete_eq)
  with Cons.IH [of "st\<lparr>window_histories :=
                  map (\<lambda>(w, h). (w, removeAll a h)) (window_histories st),
               master_history := AList.delete a (master_history st)\<rparr>"]
  show ?case
    by auto
qed

lemma remove_paths_to_remove_fields:
  "paths_to_remove (remove_paths_to_remove st) = paths_to_remove st"
  "save_cycle (remove_paths_to_remove st) = save_cycle st"
  "set (master_history (remove_paths_to_remove st)) \<subseteq> set (master_history st)"
  "p \<notin> set (paths_to_remove st) \<Longrightarrow>
     map_of (master_history (remove_paths_to_remove st)) p = map_of (master_history st) p"
  using remove_paths_fold [of "paths_to_remove st" st p]
  by (simp_all add: remove_paths_to_remove_def)

lemma save_Stored:
  "limit_entries (master_history (remove_paths_to_remove st)) n now = Inr limited \<Longrightarrow>
   save_master_history_to_file (Stored stored) st n now =
     (remove_paths_to_remove st,
      Inr (if write_allowed (length limited) (length stored) then json_dump limited
           else Stored stored))"
  by (simp add: save_master_history_to_file_def Let_def)

text \<open>
  Claim C2, amended. The write proceeds exactly when
  \<^verbatim>\<open>len(state_master_history) > 0.7 * len(stored_master_history)\<close> holds in floats. So,
  for a stored file of up to \<open>2^49\<close> entries: if the count about to be written is less
  than 70% of the stored count the save leaves the file as it is and returns without
  error; if it is more than 70% the file is written; and at exactly 70% the rounding of
  the product decides: 7 entries over 10 are not written, 63 over 90 are. In
  particular, 60 entries over 100 are not written.
\<close>

theorem save_safety_check:
  assumes "limit_entries (master_history (remove_paths_to_remove st)) n now
             = Inr state_master_history"
    and "length stored \<le> 2 ^ 49"
  shows "(10 * length state_master_history < 7 * length stored \<longrightarrow>
            save_master_history_to_file (Stored stored) st n now
              = (remove_paths_to_remove st, Inr (Stored stored)))
       \<and> (7 * length stored < 10 * length state_master_history \<longrightarrow>
            save_master_history_to_file (Stored stored) st n now
              = (remove_paths_to_remove st, Inr (json_dump state_master_history)))
       \<and> \<not> write_allowed 60 100 \<and> \<not> write_allowed 7 10 \<and> write_allowed 63 90"
proof (intro conjI impI)
  assume "10 * length state_master_history < 7 * length stored"
  then have "\<not> write_allowed (length state_master_history) (length stored)"
    using assms(2) by (rule write_refused_below)
  then show "save_master_history_to_file (Stored stored) st n now
              = (remove_paths_to_remove st, Inr (Stored stored))"
    by (simp add: save_Stored [OF assms(1)])
next
  assume "7 * length stored < 10 * length state_master_history"
  then have "write_allowed (length state_master_history) (length stored)"
    using assms(2) by (rule write_allowed_above)
  then show "save_master_history_to_file (Stored stored) st n now
              = (remove_paths_to_remove st, Inr (json_dump state_master_history))"
    by (simp add: save_Stored [OF assms(1)])
next
  show "\<not> write_allowed 60 100"
    by (rule write_refused_below) simp_all
next
  show "\<not> write_allowed 7 10"
    by (simp add: write_allowed_iff round_to_53_def bit_length.simps Let_def)
next
  show "write_allowed 63 90"
    by (simp add: write_allowed_iff round_to_53_def bit_length.simps Let_def)
qed

text \<open>The definitions that evaluate a save on given data.\<close>

lemmas eval_simps =
  save_master_history_to_file_def remove_paths_to_remove_def global_state_def
  limit_entries_def sorted_reverse_def entry_frecency_def frecency_def recency_score_def
  SECONDS_PER_MINUTE_def SECONDS_PER_HOUR_def SECONDS_PER_DAY_def SECONDS_PER_WEEK_def
  slice_to_def dict_of_items_def dict_update_def write_allowed_iff round_to_53_def
  bit_length.simps json_dump_def Let_def true_every_def SAVE_EVERY_def





theorem save_safety_check_witness:
  "limit_entries (master_history (remove_paths_to_remove (global_state\<lparr>master_history := [(''/a'', \<lparr>added = 1000, last_seen = 2000, inserts = 3\<rparr>)]\<rparr>))) 100 5000 = Inr [(''/a'', \<lparr>added = 1000, last_seen = 2000, inserts = 3\<rparr>)]
   \<and> 10 * length [(''/a'', \<lparr>added = 1000, last_seen = 2000, inserts = 3\<rparr>)] < 7 * length [(''/b'', \<lparr>added = 500, last_seen = 600, inserts = 2\<rparr>), (''/c'', \<lparr>added = 10, last_seen = 20, inserts = 1\<rparr>)]
   \<and> save_master_history_to_file (Stored [(''/b'', \<lparr>added = 500, last_seen = 600, inserts = 2\<rparr>), (''/c'', \<lparr>added = 10, last_seen = 20, inserts = 1\<rparr>)]) (global_state\<lparr>master_history := [(''/a'', \<lparr>added = 1000, last_seen = 2000, inserts = 3\<rparr>)]\<rparr>) 100 5000
       = (remove_paths_to_remove (global_state\<lparr>master_history := [(''/a'', \<lparr>added = 1000, last_seen = 2000, inserts = 3\<rparr>)]\<rparr>), Inr (Stored [(''/b'', \<lparr>added = 500, last_seen = 600, inserts = 2\<rparr>), (''/c'', \<lparr>added = 10, last_seen = 20, inserts = 1\<rparr>)]))
   \<and> 7 * length [(''/b'', \<lparr>added = 500, last_seen = 600, inserts = 2\<rparr>)] < 10 * length [(''/a'', \<lparr>added = 1000, last_seen = 2000, inserts = 3\<rparr>)]
   \<and> save_master_history_to_file (Stored [(''/b'', \<lparr>added = 500, last_seen = 600, inserts = 2\<rparr>)]) (global_state\<lparr>master_history := [(''/a'', \<lparr>added = 1000, last_seen = 2000, inserts = 3\<rparr>)]\<rparr>) 100 5000
       = (remove_paths_to_remove (global_state\<lparr>master_history := [(''/a'', \<lparr>added = 1000, last_seen = 2000, inserts = 3\<rparr>)]\<rparr>), Inr (json_dump [(''/a'', \<lparr>added = 1000, last_seen = 2000, inserts = 3\<rparr>)]))"
proof -
  have lim: "limit_entries (master_history (remove_paths_to_remove (global_state\<lparr>master_history := [(''/a'', \<lparr>added = 1000, last_seen = 2000, inserts = 3\<rparr>)]\<rparr>))) 100 5000
      = Inr [(''/a'', \<lparr>added = 1000, last_seen = 2000, inserts = 3\<rparr>)]"
    by (simp add: eval_simps)
  have small2: "length [(''/b'', \<lparr>added = 500, last_seen = 600, inserts = 2\<rparr>), (''/c'', \<lparr>added = 10, last_seen = 20, inserts = 1\<rparr>)] \<le> 2 ^ 49"
    and small1: "length [(''/b'', \<lparr>added = 500, last_seen = 600, inserts = 2\<rparr>)] \<le> 2 ^ 49"
    by simp_all
  from save_safety_check [OF lim small2] save_safety_check [OF lim small1] lim
  show ?thesis
    by simp
qed

text \<open>
  Claim C2, as the code has it. The claim says that the write proceeds unless the count
  about to be written is less than 70% of the stored count. With 7 entries in memory
  and 10 in the file, 7 is not less than 70% of 10, and the file is left as it is:
  \<^verbatim>\<open>0.7 * 10\<close> is \<^verbatim>\<open>7.0\<close> and \<^verbatim>\<open>7 > 7.0\<close> is false.
\<close>

theorem save_at_seventy_percent_counterexample:
  "save_master_history_to_file
     (Stored
     [(''/s0'', \<lparr>added = 1, last_seen = 2, inserts = 1\<rparr>),
      (''/s1'', \<lparr>added = 1, last_seen = 2, inserts = 1\<rparr>),
      (''/s2'', \<lparr>added = 1, last_seen = 2, inserts = 1\<rparr>),
      (''/s3'', \<lparr>added = 1, last_seen = 2, inserts = 1\<rparr>),
      (''/s4'', \<lparr>added = 1, last_seen = 2, inserts = 1\<rparr>),
      (''/s5'', \<lparr>added = 1, last_seen = 2, inserts = 1\<rparr>),
      (''/s6'', \<lparr>added = 1, last_seen = 2, inserts = 1\<rparr>),
      (''/s7'', \<lparr>added = 1, last_seen = 2, inserts = 1\<rparr>),
      (''/s8'', \<lparr>added = 1, last_seen = 2, inserts = 1\<rparr>),
      (''/s9'', \<lparr>added = 1, last_seen = 2, inserts = 1\<rparr>)])
     (global_state\<lparr>master_history :=
     [(''/m0'', \<lparr>added = 3, last_seen = 4, inserts = 2\<rparr>),
      (''/m1'', \<lparr>added = 3, last_seen = 4, inserts = 2\<rparr>),
      (''/m2'', \<lparr>added = 3, last_seen = 4, inserts = 2\<rparr>),
      (''/m3'', \<lparr>added = 3, last_seen = 4, inserts = 2\<rparr>),
      (''/m4'', \<lparr>added = 3, last_seen = 4, inserts = 2\<rparr>),
      (''/m5'', \<lparr>added = 3, last_seen = 4, inserts = 2\<rparr>),
      (''/m6'', \<lparr>added = 3, last_seen = 4, inserts = 2\<rparr>)]\<rparr>)
     100 5000
   = ((global_state\<lparr>master_history :=
     [(''/m0'', \<lparr>added = 3, last_seen = 4, inserts = 2\<rparr>),
      (''/m1'', \<lparr>added = 3, last_seen = 4, inserts = 2\<rparr>),
      (''/m2'', \<lparr>added = 3, last_seen = 4, inserts = 2\<rparr>),
      (''/m3'', \<lparr>added = 3, last_seen = 4, inserts = 2\<rparr>),
      (''/m4'', \<lparr>added = 3, last_seen = 4, inserts = 2\<rparr>),
      (''/m5'', \<lparr>added = 3, last_seen = 4, inserts = 2\<rparr>),
      (''/m6'', \<lparr>added = 3, last_seen = 4, inserts = 2\<rparr>)]\<rparr>),
      Inr (Stored
     [(''/s0'', \<lparr>added = 1, last_seen = 2, inserts = 1\<rparr>),
      (''/s1'', \<lparr>added = 1, last_seen = 2, inserts = 1\<rparr>),
      (''/s2'', \<lparr>added = 1, last_seen = 2, inserts = 1\<rparr>),
      (''/s3'', \<lparr>added = 1, last_seen = 2, inserts = 1\<rparr>),
      (''/s4'', \<lparr>added = 1, last_seen = 2, inserts = 1\<rparr>),
      (''/s5'', \<lparr>added = 1, last_seen = 2, inserts = 1\<rparr>),
      (''/s6'', \<lparr>added = 1, last_seen = 2, inserts = 1\<rparr>),
      (''/s7'', \<lparr>added = 1, last_seen = 2, inserts = 1\<rparr>),
      (''/s8'', \<lparr>added = 1, last_seen = 2, inserts = 1\<rparr>),
      (''/s9'', \<lparr>added = 1, last_seen = 2, inserts = 1\<rparr>)]))
   \<and> length (master_history (global_state\<lparr>master_history :=
     [(''/m0'', \<lparr>added = 3, last_seen = 4, inserts = 2\<rparr>),
      (''/m1'', \<lparr>added = 3, last_seen = 4, inserts = 2\<rparr>),
      (''/m2'', \<lparr>added = 3, last_seen = 4, inserts = 2\<rparr>),
      (''/m3'', \<lparr>added = 3, last_seen = 4, inserts = 2\<rparr>),
      (''/m4'', \<lparr>added = 3, last_seen = 4, inserts = 2\<rparr>),
      (''/m5'', \<lparr>added = 3, last_seen = 4, inserts = 2\<rparr>),
      (''/m6'', \<lparr>added = 3, last_seen = 4, inserts = 2\<rparr>)]\<rparr>)) = 7
   \<and> \<not> 10 * (7::nat) < 7 * 10"
  by (simp add: eval_simps)

text \<open>
  Claim C3, at the failing input. On a file whose text is not JSON the load ends with
  \<^verbatim>\<open>JSONDecodeError\<close>, which is a \<^verbatim>\<open>ValueError\<close> and not the \<^verbatim>\<open>IOError\<close> the function
  catches; a missing file and a file that cannot be opened leave the state as it is.
  The save, on the same file, catches the error and goes on with an empty history.
\<close>

theorem load_master_history_from_file_corrupt:
  "load_master_history_from_file Corrupt st = Inl JSONDecodeError
   \<and> load_master_history_from_file Missing st = Inr st
   \<and> load_master_history_from_file Unreadable st = Inr st
   \<and> (\<exists>file'. snd (save_master_history_to_file Corrupt st n now) = Inr file')"
proof -
  obtain limited
    where "limit_entries (master_history (remove_paths_to_remove st)) n now = Inr limited"
    using limit_entries_total by blast
  then show ?thesis
    by (simp add: load_master_history_from_file_def save_master_history_to_file_def Let_def)
qed

section \<open>Properties of the panel\<close>













section \<open>Properties of the recording of visits\<close>


lemma record_seen_path_in_window_entry:
  assumes "path \<notin> set (paths_to_remove st)"
  shows "map_of (master_history (fst (record_seen_path_in_window st disk n clock window path now)))
           path
         = Some ((case map_of (master_history st) path of
                    None \<Rightarrow> new_history_entry clock | Some e \<Rightarrow> e)
                 \<lparr>last_seen := now,
                  inserts := inserts (case map_of (master_history st) path of
                                        None \<Rightarrow> new_history_entry clock | Some e \<Rightarrow> e) + 1\<rparr>)"
    and "paths_to_remove (fst (record_seen_path_in_window st disk n clock window path now))
         = paths_to_remove st"
proof -
  define master where "master =
    (case map_of (master_history st) path of
       None \<Rightarrow> AList.update path (new_history_entry clock) (master_history st)
     | Some _ \<Rightarrow> master_history st)"
  define entry0 where "entry0 =
    (case map_of (master_history st) path of None \<Rightarrow> new_history_entry clock | Some e \<Rightarrow> e)"
  define st1 where "st1 =
    st\<lparr>master_history :=
         AList.update path (entry0\<lparr>last_seen := now, inserts := inserts entry0 + 1\<rparr>) master,
       window_histories :=
         AList.update window
           (if path \<in> set (get_window_history st window) then get_window_history st window
            else get_window_history st window @ [path])
           (window_histories st),
       save_cycle := snd (next_save_cycle (save_cycle st))\<rparr>"
  have looked_up: "(case map_of master path of None \<Rightarrow> new_history_entry clock | Some e \<Rightarrow> e)
                     = entry0"
    by (simp add: master_def entry0_def update_conv' split: option.split)
  have result: "fst (record_seen_path_in_window st disk n clock window path now)
                  = (if fst (next_save_cycle (save_cycle st))
                     then remove_paths_to_remove st1 else st1)"
    using looked_up
    by (simp add: record_seen_path_in_window_def save_master_history_to_file_def Let_def
        master_def [symmetric] st1_def split_beta split: prod.split sum.split)
  have ptr: "paths_to_remove st1 = paths_to_remove st"
    by (simp add: st1_def)
  have e1: "map_of (master_history st1) path
              = Some (entry0\<lparr>last_seen := now, inserts := inserts entry0 + 1\<rparr>)"
    by (simp add: st1_def update_conv')
  from assms ptr have "map_of (master_history (remove_paths_to_remove st1)) path
                         = map_of (master_history st1) path"
    by (simp add: remove_paths_to_remove_fields)
  with e1 result
  show "map_of (master_history (fst (record_seen_path_in_window st disk n clock window path now)))
           path
         = Some ((case map_of (master_history st) path of
                    None \<Rightarrow> new_history_entry clock | Some e \<Rightarrow> e)
                 \<lparr>last_seen := now,
                  inserts := inserts (case map_of (master_history st) path of
                                        None \<Rightarrow> new_history_entry clock | Some e \<Rightarrow> e) + 1\<rparr>)"
    by (simp add: entry0_def)
  from ptr result
  show "paths_to_remove (fst (record_seen_path_in_window st disk n clock window path now))
         = paths_to_remove st"
    by (simp add: remove_paths_to_remove_fields)
qed

lemma record_visits_entry:
  assumes "path \<notin> set (paths_to_remove st)" and "visits \<noteq> []"
  shows "map_of (master_history (fst (record_visits (st, disk) n window path visits))) path
         = Some ((case map_of (master_history st) path of
                    None \<Rightarrow> new_history_entry (snd (hd visits)) | Some e \<Rightarrow> e)
                 \<lparr>last_seen := fst (last visits),
                  inserts := inserts (case map_of (master_history st) path of
                                        None \<Rightarrow> new_history_entry (snd (hd visits))
                                      | Some e \<Rightarrow> e)
                             + int (length visits)\<rparr>)"
  using assms
proof (induction visits arbitrary: st disk)
  case Nil
  then show ?case by simp
next
  case (Cons visit visits)
  obtain now clock where visit: "visit = (now, clock)" by (cases visit)
  obtain st1 disk1 err
    where step: "record_seen_path_in_window st disk n clock window path now = (st1, disk1, err)"
    by (cases "record_seen_path_in_window st disk n clock window path now")
  define entry0 where "entry0 =
    (case map_of (master_history st) path of None \<Rightarrow> new_history_entry clock | Some e \<Rightarrow> e)"
  from record_seen_path_in_window_entry [OF Cons.prems(1), of disk n clock window now] step
  have e1: "map_of (master_history st1) path
              = Some (entry0\<lparr>last_seen := now, inserts := inserts entry0 + 1\<rparr>)"
    and ptr: "path \<notin> set (paths_to_remove st1)"
    using Cons.prems(1) by (simp_all add: entry0_def)
  have unfold: "record_visits (st, disk) n window path ((now, clock) # visits)
                  = record_visits (st1, disk1) n window path visits"
    by (simp add: step)
  show ?case
  proof (cases "visits = []")
    case True
    with e1 show ?thesis
      unfolding visit by (simp add: step entry0_def split: option.split)
  next
    case False
    from Cons.IH [OF ptr False, of disk1] e1 False show ?thesis
      unfolding visit by (simp add: step entry0_def split: option.split)
  qed
qed

text \<open>
  Claim C8. A path not previously in the store is a path that the master history does
  not hold and that has not been put aside for removal (only a path of a history is
  ever put aside). Recording \<open>k \<ge> 1\<close> visits to such a path, whatever the file and
  whether or not a save falls in between, leaves an entry whose \<^verbatim>\<open>inserts\<close> is exactly
  \<open>k\<close>, whose \<^verbatim>\<open>added\<close> is the clock's reading at the first visit and whose \<^verbatim>\<open>last_seen\<close>
  is the time of the last visit. The entry is created with \<^verbatim>\<open>added\<close> and \<^verbatim>\<open>last_seen\<close>
  the clock's reading and \<^verbatim>\<open>inserts\<close> 0, and on an entry already there every visit sets
  \<^verbatim>\<open>last_seen\<close> to its time and adds exactly 1 to \<^verbatim>\<open>inserts\<close>.
\<close>

theorem record_visits_count:
  assumes "path \<notin> set (paths_to_remove st)" and "visits \<noteq> []"
  shows "(map_of (master_history st) path = None \<longrightarrow>
            map_of (master_history (fst (record_visits (st, disk) n window path visits))) path
              = Some \<lparr>added = snd (hd visits), last_seen = fst (last visits),
                      inserts = int (length visits)\<rparr>)
       \<and> (\<forall>e. map_of (master_history st) path = Some e \<longrightarrow>
            map_of (master_history (fst (record_visits (st, disk) n window path visits))) path
              = Some (e\<lparr>last_seen := fst (last visits),
                        inserts := inserts e + int (length visits)\<rparr>))
       \<and> new_history_entry clock = \<lparr>added = clock, last_seen = clock, inserts = 0\<rparr>"
  using record_visits_entry [OF assms, of disk n window]
  by (simp add: new_history_entry_def)

text \<open>The definitions that evaluate a visit on given data.\<close>

lemmas record_eval_simps =
  record_seen_path_in_window_def next_save_cycle_def get_window_history_def
  new_history_entry_def eval_simps

theorem record_visits_count_witness:
  "''/a'' \<notin> set (paths_to_remove global_state)
   \<and> map_of (master_history global_state) ''/a'' = None
   \<and> map_of (master_history
               (fst (record_visits (global_state, Missing) 100 1 ''/a''
                       [(10, 11), (20, 21), (30, 31)]))) ''/a''
       = Some \<lparr>added = 11, last_seen = 30, inserts = 3\<rparr>
   \<and> map_of (master_history
               (fst (record_visits
                       (global_state\<lparr>master_history :=
                          [(''/a'', \<lparr>added = 1, last_seen = 2, inserts = 5\<rparr>)]\<rparr>, Missing)
                       100 1 ''/a'' [(40, 41)]))) ''/a''
       = Some \<lparr>added = 1, last_seen = 40, inserts = 6\<rparr>"
  using record_visits_count
      [of "''/a''" global_state "[(10, 11), (20, 21), (30, 31)]" Missing 100 1 0]
    record_visits_count
      [of "''/a''" "global_state\<lparr>master_history :=
                          [(''/a'', \<lparr>added = 1, last_seen = 2, inserts = 5\<rparr>)]\<rparr>"
          "[(40, 41)]" Missing 100 1 0]
  by (simp add: global_state_def)

section \<open>Properties of the score in binary64\<close>

lemma rat_of_nat_pow2_le: "2 ^ k \<le> n \<Longrightarrow> (2::rat) ^ k \<le> of_nat n"
proof -
  assume "2 ^ k \<le> n"
  then have "(of_nat (2 ^ k) :: rat) \<le> of_nat n"
    by (rule of_nat_mono)
  then show ?thesis by simp
qed

lemma rat_of_nat_le_pow2: "n \<le> 2 ^ k \<Longrightarrow> (of_nat n :: rat) \<le> 2 ^ k"
proof -
  assume "n \<le> 2 ^ k"
  then have "(of_nat n :: rat) \<le> of_nat (2 ^ k)"
    by (rule of_nat_mono)
  then show ?thesis by simp
qed

lemma ilog2_ge1:
  assumes "1 \<le> x"
  shows "2 powi ilog2 x \<le> x \<and> x < 2 powi (ilog2 x + 1)"
proof -
  define n where "n = nat \<lfloor>x\<rfloor>"
  define b where "b = bit_length n"
  from assms have n: "0 < n" and fl: "rat_of_int \<lfloor>x\<rfloor> = of_nat n"
    by (simp_all add: n_def)
  from bit_length_bounds [OF n]
  have lo: "2 ^ (b - 1) \<le> n" and hi: "n < 2 ^ b"
    by (simp_all add: b_def)
  from n have "b = Suc (bit_length (n div 2))"
    unfolding b_def by (rule bit_length_pos)
  then obtain b' where b': "b = Suc b'"
    by blast
  have il0: "ilog2 x = int b - 1"
    using assms by (simp add: ilog2_def n_def b_def)
  have il: "ilog2 x = int b'"
    unfolding il0 b' by simp
  have il1: "ilog2 x + 1 = int b"
    unfolding il0 by simp
  from lo have "2 ^ b' \<le> n"
    unfolding b' by simp
  then have A: "(2::rat) ^ b' \<le> of_nat n"
    by (rule rat_of_nat_pow2_le)
  have B: "rat_of_int \<lfloor>x\<rfloor> \<le> x"
    by (rule of_int_floor_le)
  have low: "2 powi ilog2 x \<le> x"
    unfolding il power_int_of_nat using A B fl by linarith
  have C: "x < rat_of_int \<lfloor>x\<rfloor> + 1"
    by linarith
  from hi have "Suc n \<le> 2 ^ b"
    by simp
  then have "(of_nat (Suc n) :: rat) \<le> 2 ^ b"
    by (rule rat_of_nat_le_pow2)
  then have D: "(of_nat n :: rat) + 1 \<le> 2 ^ b"
    by simp
  have "x < 2 powi (ilog2 x + 1)"
    unfolding il1 power_int_of_nat using C D fl by linarith
  with low show ?thesis ..
qed

lemma ilog2_lt1:
  assumes "0 < x" and "x < 1"
  shows "2 powi ilog2 x \<le> x \<and> x < 2 powi (ilog2 x + 1)"
proof -
  define y where "y = 1 / x"
  define N where "N = nat \<lceil>y\<rceil>"
  define j where "j = bit_length (N - 1)"
  from assms have y1: "1 < y"
    by (simp add: y_def)
  then have "2 \<le> \<lceil>y\<rceil>"
    by linarith
  then have N: "0 < N - 1" and cl: "rat_of_int \<lceil>y\<rceil> = of_nat N"
    by (simp_all add: N_def)
  from bit_length_bounds [OF N]
  have lo: "2 ^ (j - 1) \<le> N - 1" and hi: "N - 1 < 2 ^ j"
    by (simp_all add: j_def)
  from N have "j = Suc (bit_length ((N - 1) div 2))"
    unfolding j_def by (rule bit_length_pos)
  then obtain j' where j': "j = Suc j'"
    by blast
  have il: "ilog2 x = - int j"
    using assms by (simp add: ilog2_def j_def N_def y_def)
  have il1: "ilog2 x + 1 = - int j'"
    unfolding il j' by simp
  have ypos: "0 < y" using y1 by simp
  have x: "x = 1 / y" by (simp add: y_def)
  have A: "y \<le> rat_of_int \<lceil>y\<rceil>"
    by (rule le_of_int_ceiling)
  from hi N have "N \<le> 2 ^ j"
    by linarith
  then have "(of_nat N :: rat) \<le> 2 ^ j"
    by (rule rat_of_nat_le_pow2)
  with A cl have "y \<le> 2 ^ j"
    by linarith
  then have "1 / 2 ^ j \<le> 1 / y"
    using ypos by (intro divide_left_mono) simp_all
  moreover have "2 powi ilog2 x = (1 / 2 ^ j :: rat)"
    unfolding il power_int_minus power_int_of_nat by (simp add: divide_inverse)
  ultimately have low: "2 powi ilog2 x \<le> x"
    using x by (simp only:)
  from lo have "2 ^ j' \<le> N - 1"
    unfolding j' by simp
  then have "(2::rat) ^ j' \<le> of_nat (N - 1)"
    by (rule rat_of_nat_pow2_le)
  moreover have "(of_nat (N - 1) :: rat) = of_nat N - 1"
    using N by (simp add: of_nat_diff)
  moreover have "rat_of_int \<lceil>y\<rceil> - 1 < y"
    by linarith
  ultimately have "2 ^ j' < y"
    using cl by linarith
  then have "1 / y < 1 / 2 ^ j'"
    using ypos by (intro divide_strict_left_mono) simp_all
  moreover have "2 powi (ilog2 x + 1) = (1 / 2 ^ j' :: rat)"
    unfolding il1 power_int_minus power_int_of_nat by (simp add: divide_inverse)
  ultimately have "x < 2 powi (ilog2 x + 1)"
    using x by (simp only:)
  with low show ?thesis ..
qed

lemma ilog2_bounds:
  "0 < x \<Longrightarrow> 2 powi ilog2 x \<le> x \<and> x < 2 powi (ilog2 x + 1)"
  using ilog2_ge1 [of x] ilog2_lt1 [of x] by (cases "1 \<le> x") simp_all

lemma round_half_even_bounds:
  "y - 1 / 2 \<le> of_int (round_half_even y) \<and> of_int (round_half_even y) \<le> y + 1 / 2"
proof -
  define f where "f = y - of_int \<lfloor>y\<rfloor>"
  have f: "0 \<le> f" "f < 1"
    unfolding f_def by linarith+
  have y: "y = of_int \<lfloor>y\<rfloor> + f"
    by (simp add: f_def)
  have r: "round_half_even y = (if 1 / 2 < f \<or> (f = 1 / 2 \<and> odd \<lfloor>y\<rfloor>) then \<lfloor>y\<rfloor> + 1 else \<lfloor>y\<rfloor>)"
    by (simp add: round_half_even_def Let_def f_def)
  show ?thesis
  proof (cases "1 / 2 < f \<or> (f = 1 / 2 \<and> odd \<lfloor>y\<rfloor>)")
    case True
    then have "1 / 2 \<le> f" by auto
    moreover from True r have "rat_of_int (round_half_even y) = of_int \<lfloor>y\<rfloor> + 1"
      by simp
    ultimately show ?thesis
      using f y by linarith
  next
    case False
    then have "f \<le> 1 / 2" by auto
    moreover from False r have "rat_of_int (round_half_even y) = of_int \<lfloor>y\<rfloor>"
      by simp
    ultimately show ?thesis
      using f y by linarith
  qed
qed

lemma round_half_even_nonneg: "0 \<le> y \<Longrightarrow> 0 \<le> round_half_even y"
  by (auto simp add: round_half_even_def Let_def)




lemma round_nonneg_nonneg: "0 \<le> x \<Longrightarrow> 0 \<le> round_nonneg x"
  by (simp add: round_nonneg_def Let_def round_half_even_nonneg)

lemma round_nonneg_error:
  assumes "0 < x"
  shows "\<bar>round_nonneg x - x\<bar> \<le> 2 powi (max (ilog2 x) (- 1022) - 52) / 2"
proof -
  define q :: rat where "q = 2 powi (max (ilog2 x) (- 1022) - 52)"
  define y where "y = x / q"
  define r where "r = rat_of_int (round_half_even y)"
  have q: "0 < q"
    by (simp add: q_def)
  have x: "y * q = x"
    using q by (simp add: y_def)
  have rn: "round_nonneg x = r * q"
    using assms by (simp add: round_nonneg_def Let_def q_def y_def r_def)
  have "\<bar>r - y\<bar> \<le> 1 / 2"
    using round_half_even_bounds [of y] unfolding r_def by linarith
  then have "\<bar>r - y\<bar> * q \<le> (1 / 2) * q"
    using q by (intro mult_right_mono) simp_all
  moreover have "round_nonneg x - x = (r - y) * q"
    unfolding rn by (simp add: left_diff_distrib x)
  then have "\<bar>round_nonneg x - x\<bar> = \<bar>r - y\<bar> * q"
    using q by (simp add: abs_mult)
  ultimately show ?thesis
    by (simp add: q_def)
qed

lemma pow2_neg_1010: "(2::rat) powi (- 1010) = 1 / 2 ^ 1010"
  by simp

lemma pow2_neg_1074: "(2::rat) powi (- 1074) / 2 \<le> 1 / 2 ^ 100"
  by simp

lemma pos_of_normal: "1 / 2 ^ 1010 \<le> x \<Longrightarrow> (0::rat) < x"
proof -
  assume "1 / 2 ^ 1010 \<le> x"
  moreover have "(0::rat) < 1 / 2 ^ 1010"
    by simp
  ultimately show ?thesis
    by (rule less_le_trans [rotated])
qed

lemma ilog2_normal:
  assumes "1 / 2 ^ 1010 \<le> x"
  shows "- 1022 \<le> ilog2 x"
proof (rule ccontr)
  assume "\<not> - 1022 \<le> ilog2 x"
  then have "ilog2 x + 1 \<le> - 1010"
    by simp
  then have "(2::rat) powi (ilog2 x + 1) \<le> 2 powi (- 1010)"
    by (intro power_int_increasing) simp_all
  moreover have "x < 2 powi (ilog2 x + 1)"
    using ilog2_bounds [OF pos_of_normal [OF assms]] by blast
  ultimately show False
    using assms unfolding pow2_neg_1010 by linarith
qed

lemma round_nonneg_relative:
  assumes "0 < x" and "- 1022 \<le> ilog2 x"
  shows "\<bar>round_nonneg x - x\<bar> \<le> x / 2 ^ 53"
proof -
  from assms(2) have k: "max (ilog2 x) (- 1022) - 52 = ilog2 x - 52"
    by simp
  have "(2::rat) powi (ilog2 x - 52) / 2 = 2 powi ilog2 x / 2 ^ 53"
    by (simp add: power_int_diff)
  moreover have "2 powi ilog2 x \<le> x"
    using ilog2_bounds [OF assms(1)] by blast
  then have "2 powi ilog2 x / 2 ^ 53 \<le> x / 2 ^ 53"
    by (intro divide_right_mono) simp_all
  ultimately show ?thesis
    using round_nonneg_error [OF assms(1)] unfolding k by linarith
qed

lemma round_nonneg_normal:
  assumes "1 / 2 ^ 1010 \<le> x"
  shows "x - x / 2 ^ 53 \<le> round_nonneg x \<and> round_nonneg x \<le> x + x / 2 ^ 53"
proof -
  have "\<bar>round_nonneg x - x\<bar> \<le> x / 2 ^ 53"
    using pos_of_normal [OF assms] ilog2_normal [OF assms] by (rule round_nonneg_relative)
  then show ?thesis
    by (intro conjI) linarith+
qed

lemma round_nonneg_upper:
  assumes "0 \<le> x"
  shows "round_nonneg x \<le> x + x / 2 ^ 53 + 1 / 2 ^ 100"
proof (cases "x = 0")
  case True
  then show ?thesis by (simp add: round_nonneg_def)
next
  case False
  with assms have pos: "0 < x" by simp
  then have d: "0 \<le> x / 2 ^ 53" by simp
  show ?thesis
  proof (cases "- 1022 \<le> ilog2 x")
    case True
    have "(0::rat) \<le> 1 / 2 ^ 100"
      by simp
    moreover from pos True have "\<bar>round_nonneg x - x\<bar> \<le> x / 2 ^ 53"
      by (rule round_nonneg_relative)
    ultimately show ?thesis
      by linarith
  next
    case False
    then have k: "max (ilog2 x) (- 1022) - 52 = - 1074"
      by simp
    have "\<bar>round_nonneg x - x\<bar> \<le> 1 / 2 ^ 100"
      using round_nonneg_error [OF pos] pow2_neg_1074 unfolding k by linarith
    then show ?thesis
      using d by linarith
  qed
qed




lemma two_roundings_upper:
  assumes "0 \<le> x" and "x \<le> 2 ^ 1000" and "1 \<le> w" and "w \<le> 8"
  shows "0 \<le> round_nonneg x" and "round_nonneg x < 2 ^ 1024"
    and "0 \<le> round_nonneg (round_nonneg x * w)"
    and "round_nonneg (round_nonneg x * w) < 2 ^ 1024"
    and "round_nonneg (round_nonneg x * w) \<le> x * w + x * w / 2 ^ 51 + 1 / 2 ^ 90"
proof -
  define q where "q = round_nonneg x"
  define p where "p = q * w"
  define s where "s = round_nonneg p"
  define X where "X = x * w"
  have q0: "0 \<le> q"
    unfolding q_def using assms(1) by (rule round_nonneg_nonneg)
  have qu: "q \<le> x + x / 2 ^ 53 + 1 / 2 ^ 100"
    unfolding q_def using assms(1) by (rule round_nonneg_upper)
  have p0: "0 \<le> p"
    unfolding p_def using q0 assms(3) by simp
  have "q * w \<le> (x + x / 2 ^ 53 + 1 / 2 ^ 100) * w"
    using qu assms(3) by (intro mult_right_mono) simp_all
  also have "\<dots> = X + X / 2 ^ 53 + (1 / 2 ^ 100) * w"
    by (simp add: X_def algebra_simps)
  also have "(1 / 2 ^ 100) * w \<le> (1 / 2 ^ 100) * 8"
    using assms(4) by (intro mult_left_mono) simp_all
  finally have pu: "p \<le> X + X / 2 ^ 53 + 8 / 2 ^ 100"
    by (simp add: p_def)
  have s0: "0 \<le> s"
    unfolding s_def using p0 by (rule round_nonneg_nonneg)
  have su: "s \<le> p + p / 2 ^ 53 + 1 / 2 ^ 100"
    unfolding s_def using p0 by (rule round_nonneg_upper)
  have X0: "0 \<le> X"
    unfolding X_def using assms(1,3) by simp
  have "x * w \<le> 2 ^ 1000 * 8"
    using assms by (intro mult_mono) simp_all
  then have Xu: "X \<le> 2 ^ 1003"
    by (simp add: X_def)
  have bound: "s \<le> X + X / 2 ^ 51 + 1 / 2 ^ 90"
    using su pu X0 by simp
  have "s < 2 ^ 1024"
    using bound Xu by simp
  moreover have "q < 2 ^ 1024"
    using qu assms(2) by simp
  ultimately show "0 \<le> round_nonneg x" and "round_nonneg x < 2 ^ 1024"
    and "0 \<le> round_nonneg (round_nonneg x * w)"
    and "round_nonneg (round_nonneg x * w) < 2 ^ 1024"
    and "round_nonneg (round_nonneg x * w) \<le> x * w + x * w / 2 ^ 51 + 1 / 2 ^ 90"
    using q0 s0 bound by (simp_all add: q_def p_def s_def X_def)
qed

lemma two_roundings_lower:
  assumes "1 / 2 ^ 1000 \<le> x" and "1 \<le> w"
  shows "x * w - x * w / 2 ^ 52 \<le> round_nonneg (round_nonneg x * w)"
proof -
  define q where "q = round_nonneg x"
  define p where "p = q * w"
  define s where "s = round_nonneg p"
  define X where "X = x * w"
  have x0: "0 < x"
    using assms(1) by (rule less_le_trans [rotated]) simp
  have xn: "1 / 2 ^ 1010 \<le> x"
    using assms(1) by (rule order_trans [rotated]) simp
  have ql: "x - x / 2 ^ 53 \<le> q"
    unfolding q_def using round_nonneg_normal [OF xn] by blast
  have "(x - x / 2 ^ 53) * w \<le> q * w"
    using ql assms(2) by (intro mult_right_mono) simp_all
  then have pl: "X - X / 2 ^ 53 \<le> p"
    by (simp add: X_def p_def algebra_simps)
  have "x * 1 \<le> x * w"
    using x0 assms(2) by (intro mult_left_mono) simp_all
  then have Xx: "x \<le> X"
    by (simp add: X_def)
  have pn: "1 / 2 ^ 1010 \<le> p"
    using pl Xx assms(1) by simp
  have sl: "p - p / 2 ^ 53 \<le> s"
    unfolding s_def using round_nonneg_normal [OF pn] by blast
  have "X - X / 2 ^ 52 \<le> s"
    using sl pl Xx x0 by simp
  then show ?thesis
    by (simp add: q_def p_def s_def X_def)
qed




lemma recency_score_range: "1 \<le> recency_score ds \<and> recency_score ds \<le> 8"
  by (simp add: recency_score_def)

lemma recency_score_drop:
  assumes "recency_score b < recency_score a"
  shows "4 * recency_score b \<le> 3 * recency_score a" and "2 \<le> recency_score a"
    and "a < 604800"
  using assms
  by (simp_all add: recency_score_def SECONDS_PER_MINUTE_def SECONDS_PER_HOUR_def
      SECONDS_PER_DAY_def SECONDS_PER_WEEK_def split: if_splits)

lemma frecency_binary64_nonneg:
  assumes "0 < a" and "0 \<le> c" and "c \<le> 2 ^ 1000"
  shows "frecency_binary64 a c =
           Inr (Finite (round_nonneg (round_nonneg (of_int c / of_int a)
                                      * of_int (recency_score a))))"
proof -
  define x :: rat where "x = of_int c / of_int a"
  define w :: rat where "w = of_int (recency_score a)"
  have x0: "0 \<le> x"
    using assms(1,2) by (simp add: x_def)
  have "rat_of_int c / of_int a \<le> of_int c / 1"
    using assms(1,2) by (intro divide_left_mono) simp_all
  moreover have "rat_of_int c \<le> of_int (2 ^ 1000)"
    using assms(3) by (simp only: of_int_le_iff)
  ultimately have xu: "x \<le> 2 ^ 1000"
    by (simp add: x_def)
  have w: "1 \<le> w" "w \<le> 8"
    using recency_score_range [of a] by (simp_all add: w_def)
  note r = two_roundings_upper [OF x0 xu w]
  have q: "round_binary64 x = round_nonneg x"
    using x0 by (simp add: round_binary64_def)
  have "0 \<le> round_nonneg x * w"
    using r(1) w(1) by simp
  then have p: "round_binary64 (round_nonneg x * w) = round_nonneg (round_nonneg x * w)"
    by (simp add: round_binary64_def)
  have "int_true_divide c a = Inr (round_nonneg x)"
    using assms(1) r(1,2) by (simp add: int_true_divide_def Let_def x_def [symmetric] q)
  moreover have "float_times_int (round_nonneg x) (recency_score a)
                   = Finite (round_nonneg (round_nonneg x * w))"
    using r(3,4) by (simp add: float_times_int_def Let_def w_def [symmetric] p)
  ultimately show ?thesis
    by (simp add: frecency_binary64_def x_def w_def)
qed

lemma frecency_binary64_zero: "a \<noteq> 0 \<Longrightarrow> frecency_binary64 a 0 = Inr (Finite 0)"
  by (simp add: frecency_binary64_def int_true_divide_def float_times_int_def
      round_binary64_def round_nonneg_def)




lemma two_roundings_normal_upper:
  assumes "1 / 2 ^ 1000 \<le> x" and "1 \<le> w"
  shows "round_nonneg (round_nonneg x * w) \<le> x * w + x * w / 2 ^ 51"
proof -
  define q where "q = round_nonneg x"
  define p where "p = q * w"
  define s where "s = round_nonneg p"
  define X where "X = x * w"
  have x0: "0 < x"
    using assms(1) by (rule less_le_trans [rotated]) simp
  have xn: "1 / 2 ^ 1010 \<le> x"
    using assms(1) by (rule order_trans [rotated]) simp
  have ql: "x - x / 2 ^ 53 \<le> q" and qu: "q \<le> x + x / 2 ^ 53"
    unfolding q_def using round_nonneg_normal [OF xn] by blast+
  have "(x - x / 2 ^ 53) * w \<le> q * w"
    using ql assms(2) by (intro mult_right_mono) simp_all
  then have pl: "X - X / 2 ^ 53 \<le> p"
    by (simp add: X_def p_def algebra_simps)
  have "q * w \<le> (x + x / 2 ^ 53) * w"
    using qu assms(2) by (intro mult_right_mono) simp_all
  then have pu: "p \<le> X + X / 2 ^ 53"
    by (simp add: X_def p_def algebra_simps)
  have "x * 1 \<le> x * w"
    using x0 assms(2) by (intro mult_left_mono) simp_all
  then have Xx: "x \<le> X"
    by (simp add: X_def)
  have pn: "1 / 2 ^ 1010 \<le> p"
    using pl Xx assms(1) by simp
  have su: "s \<le> p + p / 2 ^ 53"
    unfolding s_def using round_nonneg_normal [OF pn] by blast
  have "s \<le> X + X / 2 ^ 51"
    using su pu Xx x0 by simp
  then show ?thesis
    by (simp add: q_def p_def s_def X_def)
qed

lemma score_decreases_across_tiers:
  assumes "0 < c" and "c \<le> 2 ^ 1000" and "0 < a1" and "a1 < a2"
    and "recency_score a2 < recency_score a1"
  shows "round_nonneg (round_nonneg (of_int c / of_int a2) * of_int (recency_score a2))
       < round_nonneg (round_nonneg (of_int c / of_int a1) * of_int (recency_score a1))"
proof -
  define x1 :: rat where "x1 = of_int c / of_int a1"
  define x2 :: rat where "x2 = of_int c / of_int a2"
  define w1 :: rat where "w1 = of_int (recency_score a1)"
  define w2 :: rat where "w2 = of_int (recency_score a2)"
  define s1 where "s1 = round_nonneg (round_nonneg x1 * w1)"
  define s2 where "s2 = round_nonneg (round_nonneg x2 * w2)"
  note d = recency_score_drop [OF assms(5)]
  have w1: "1 \<le> w1" "w1 \<le> 8" and w2: "1 \<le> w2" "w2 \<le> 8"
    using recency_score_range [of a1] recency_score_range [of a2]
    by (simp_all add: w1_def w2_def)
  have "rat_of_int (4 * recency_score a2) \<le> of_int (3 * recency_score a1)"
    using d(1) by (simp only: of_int_le_iff)
  then have ww: "4 * w2 \<le> 3 * w1"
    by (simp add: w1_def w2_def)
  have "rat_of_int 2 \<le> of_int (recency_score a1)"
    using d(2) by (simp only: of_int_le_iff)
  then have w12: "2 \<le> w1"
    by (simp add: w1_def)
  have "1 / 604800 \<le> rat_of_int c / of_int a1"
    using assms(1,3) d(3) by (intro frac_le) simp_all
  then have x1l: "1 / 604800 \<le> x1"
    by (simp add: x1_def)
  then have x1n: "1 / 2 ^ 1000 \<le> x1"
    by (rule order_trans [rotated]) simp
  have x20: "0 \<le> x2"
    using assms(1,3,4) by (simp add: x2_def)
  have "rat_of_int c / of_int a2 \<le> of_int c / of_int a1"
    using assms(1,3,4) by (intro frac_le) simp_all
  then have x21: "x2 \<le> x1"
    by (simp add: x1_def x2_def)
  have "rat_of_int c / of_int a1 \<le> of_int c / 1"
    using assms(1,3) by (intro divide_left_mono) simp_all
  moreover have "rat_of_int c \<le> of_int (2 ^ 1000)"
    using assms(2) by (simp only: of_int_le_iff)
  ultimately have x1u: "x1 \<le> 2 ^ 1000"
    by (simp add: x1_def)
  with x21 have x2u: "x2 \<le> 2 ^ 1000"
    by simp
  define X1 where "X1 = x1 * w1"
  define X2 where "X2 = x2 * w2"
  have lower: "X1 - X1 / 2 ^ 52 \<le> s1"
    unfolding s1_def X1_def using x1n w1(1) by (rule two_roundings_lower)
  have upper: "s2 \<le> X2 + X2 / 2 ^ 51 + 1 / 2 ^ 90"
    unfolding s2_def X2_def using x20 x2u w2 by (rule two_roundings_upper(5))
  have "4 * X2 = 4 * x2 * w2"
    by (simp add: X2_def)
  also have "\<dots> \<le> 4 * x1 * w2"
    using x21 w2(1) by (intro mult_right_mono mult_left_mono) simp_all
  also have "\<dots> = x1 * (4 * w2)"
    by simp
  also have "\<dots> \<le> x1 * (3 * w1)"
    using ww x1l by (intro mult_left_mono) simp_all
  also have "\<dots> = 3 * X1"
    by (simp add: X1_def)
  finally have X: "4 * X2 \<le> 3 * X1" .
  have "x1 * 2 \<le> X1"
    unfolding X1_def using w12 x1l by (intro mult_left_mono) simp_all
  with x1l have X1: "1 / 302400 \<le> X1"
    by simp
  have "s2 < s1"
    using lower upper X X1 by simp
  then show ?thesis
    by (simp add: s1_def s2_def x1_def x2_def w1_def w2_def)
qed

lemma score_increases_with_count:
  assumes "0 < a" and "a \<le> 2 ^ 1000" and "0 \<le> c1" and "c1 < c2" and "c2 \<le> 2 ^ 50"
  shows "round_nonneg (round_nonneg (of_int c1 / of_int a) * of_int (recency_score a))
       < round_nonneg (round_nonneg (of_int c2 / of_int a) * of_int (recency_score a))"
proof -
  define x1 :: rat where "x1 = of_int c1 / of_int a"
  define x2 :: rat where "x2 = of_int c2 / of_int a"
  define w :: rat where "w = of_int (recency_score a)"
  define s1 where "s1 = round_nonneg (round_nonneg x1 * w)"
  define s2 where "s2 = round_nonneg (round_nonneg x2 * w)"
  have w: "1 \<le> w" "w \<le> 8"
    using recency_score_range [of a] by (simp_all add: w_def)
  have "rat_of_int a \<le> of_int (2 ^ 1000)"
    using assms(2) by (simp only: of_int_le_iff)
  then have au: "rat_of_int a \<le> 2 ^ 1000"
    by simp
  have "1 / 2 ^ 1000 \<le> rat_of_int c2 / of_int a"
    using assms(1,3,4) au by (intro frac_le) simp_all
  then have x2n: "1 / 2 ^ 1000 \<le> x2"
    by (simp add: x2_def)
  then have x2pos: "0 < x2"
    by (rule less_le_trans [rotated]) simp
  define X1 where "X1 = x1 * w"
  define X2 where "X2 = x2 * w"
  have lower2: "X2 - X2 / 2 ^ 52 \<le> s2"
    unfolding s2_def X2_def using x2n w(1) by (rule two_roundings_lower)
  have X2pos: "0 < X2"
    unfolding X2_def using x2pos w(1) by simp
  show ?thesis
  proof (cases "c1 = 0")
    case True
    then have "s1 = 0"
      by (simp add: s1_def x1_def round_nonneg_def)
    moreover have "0 < s2"
      using lower2 X2pos by simp
    ultimately have "s1 < s2"
      by simp
    then show ?thesis
      by (simp add: s1_def s2_def x1_def x2_def w_def)
  next
    case False
    with assms(3) have c1: "1 \<le> c1" by simp
    have "1 / 2 ^ 1000 \<le> rat_of_int c1 / of_int a"
      using assms(1) c1 au by (intro frac_le) simp_all
    then have x1n: "1 / 2 ^ 1000 \<le> x1"
      by (simp add: x1_def)
    have upper1: "s1 \<le> X1 + X1 / 2 ^ 51"
      unfolding s1_def X1_def using x1n w(1) by (rule two_roundings_normal_upper)
    have "c1 * 2 ^ 50 + c1 \<le> c2 * 2 ^ 50"
      using assms(4,5) by simp
    then have "rat_of_int (c1 * 2 ^ 50 + c1) \<le> of_int (c2 * 2 ^ 50)"
      by (simp only: of_int_le_iff)
    then have "rat_of_int c1 * (2 ^ 50 + 1) \<le> of_int c2 * 2 ^ 50"
      by (simp add: algebra_simps)
    then have "rat_of_int c1 * (2 ^ 50 + 1) / of_int a \<le> of_int c2 * 2 ^ 50 / of_int a"
      using assms(1) by (intro divide_right_mono) simp_all
    then have xx: "x1 * (2 ^ 50 + 1) \<le> x2 * 2 ^ 50"
      by (simp add: x1_def x2_def)
    then have "x1 * (2 ^ 50 + 1) * w \<le> x2 * 2 ^ 50 * w"
      using w(1) by (intro mult_right_mono) simp_all
    then have XX: "X1 * (2 ^ 50 + 1) \<le> X2 * 2 ^ 50"
      by (simp add: X1_def X2_def algebra_simps)
    have "s1 < s2"
      using lower2 upper1 XX X2pos by simp
    then show ?thesis
      by (simp add: s1_def s2_def x1_def x2_def w_def)
  qed
qed

text \<open>
  The exact score and the float. For ages and counts up to \<open>2^1000\<close> the float that the
  code computes lies within the relative distance \<open>2^-51\<close> of the exact score of
  \<^const>\<open>frecency\<close>: the quotient and the product are each rounded once.
\<close>

lemma frecency_binary64_close:
  assumes "0 < a" and "a \<le> 2 ^ 1000" and "0 \<le> c" and "c \<le> 2 ^ 1000"
  shows "\<exists>r s. frecency a c = Inr r \<and> frecency_binary64 a c = Inr (Finite s)
           \<and> r - r / 2 ^ 52 \<le> s \<and> s \<le> r + r / 2 ^ 51"
proof (cases "c = 0")
  case True
  with assms(1) show ?thesis
    by (simp add: frecency_def frecency_binary64_zero)
next
  case False
  define x :: rat where "x = of_int c / of_int a"
  define w :: rat where "w = of_int (recency_score a)"
  define s where "s = round_nonneg (round_nonneg x * w)"
  have w: "1 \<le> w"
    using recency_score_range [of a] by (simp add: w_def)
  from False assms(3) have "1 \<le> c"
    by simp
  hence c1: "(1::rat) \<le> of_int c"
    by simp
  have "rat_of_int a \<le> of_int (2 ^ 1000)"
    using assms(2) by (rule of_int_le_iff [THEN iffD2])
  hence a1: "rat_of_int a \<le> 2 ^ 1000"
    by simp
  have a0: "(0::rat) < of_int a"
    using assms(1) by simp
  have "1 / 2 ^ 1000 \<le> 1 / rat_of_int a"
    using a0 a1 by (simp add: frac_le)
  also have "\<dots> \<le> of_int c / of_int a"
    using a0 c1 by (simp add: divide_right_mono)
  finally have x: "1 / 2 ^ 1000 \<le> x"
    by (simp add: x_def)
  have lo: "x * w - x * w / 2 ^ 52 \<le> s"
    unfolding s_def using x w by (rule two_roundings_lower)
  have hi: "s \<le> x * w + x * w / 2 ^ 51"
    unfolding s_def using x w by (rule two_roundings_normal_upper)
  have r: "frecency a c = Inr (x * w)"
    using assms(1) by (simp add: frecency_def x_def w_def)
  have b: "frecency_binary64 a c = Inr (Finite s)"
    unfolding s_def x_def w_def using assms(1,3,4) by (rule frecency_binary64_nonneg)
  from r b lo hi show ?thesis
    by blast
qed

lemma floor_rat_numeral_div:
  "\<lfloor>numeral a / numeral b :: rat\<rfloor> = numeral a div numeral b"
  "\<lfloor>1 / numeral b :: rat\<rfloor> = 1 div numeral b"
  using floor_divide_of_int_eq [of "numeral a" "numeral b", where ?'a = rat]
    floor_divide_of_int_eq [of 1 "numeral b", where ?'a = rat]
  by simp_all

lemma ceiling_rat_numeral_div:
  "\<lceil>numeral a / numeral b :: rat\<rceil> = - (- numeral a div numeral b)"
  "\<lceil>1 / numeral b :: rat\<rceil> = - (- 1 div numeral b)"
  using floor_divide_of_int_eq [of "- numeral a" "numeral b", where ?'a = rat]
    floor_divide_of_int_eq [of "- 1" "numeral b", where ?'a = rat]
  by (simp_all add: ceiling_def)

lemma ilog2_unique:
  assumes "0 < x" and "2 powi k \<le> x" and "x < 2 powi (k + 1)"
  shows "ilog2 x = k"
proof -
  have b: "2 powi ilog2 x \<le> x \<and> x < 2 powi (ilog2 x + 1)"
    using assms(1) by (rule ilog2_bounds)
  have "\<not> ilog2 x < k"
  proof
    assume "ilog2 x < k"
    hence "(2::rat) powi (ilog2 x + 1) \<le> 2 powi k"
      by (intro power_int_increasing) simp_all
    with b assms(2) show False by linarith
  qed
  moreover have "\<not> k < ilog2 x"
  proof
    assume "k < ilog2 x"
    hence "(2::rat) powi (k + 1) \<le> 2 powi ilog2 x"
      by (intro power_int_increasing) simp_all
    with b assms(3) show False by linarith
  qed
  ultimately show ?thesis by linarith
qed

lemmas float_eval_simps =
  frecency_binary64_def int_true_divide_def float_times_int_def round_binary64_def
  round_nonneg_def round_half_even_def Let_def
  recency_score_def SECONDS_PER_MINUTE_def SECONDS_PER_HOUR_def SECONDS_PER_DAY_def
  SECONDS_PER_WEEK_def floor_rat_numeral_div ceiling_rat_numeral_div

text \<open>
  Claim C7, as the code has it. The claim says that for every fixed count the score
  strictly decreases when the age crosses a tier boundary, and that for every fixed
  age it strictly increases with the count. In the code's floats:

  \<^item> at the count 0 the score is 0 on both sides of every boundary (ages 3599 and
    3600: the weight drops from 6 to 4, the score stays 0);
  \<^item> the counts \<open>2^60\<close> and \<open>2^60 + 1\<close> have the same score at the age 100, and the counts
    1 and 2 have the score 0 at the age \<open>10^400\<close>;
  \<^item> at the count \<open>60 * 2^1023\<close> the score is \<^verbatim>\<open>inf\<close> on both sides of the boundary
    between the ages 59 and 60;
  \<^item> at the count \<open>10^400\<close> and the age 100 the division raises \<^verbatim>\<open>OverflowError\<close>, and
    at the age 0, in the first tier, it raises \<^verbatim>\<open>ZeroDivisionError\<close>.
\<close>

theorem frecency_binary64_not_monotone_counterexample:
  "recency_score 3599 = 6 \<and> recency_score 3600 = 4
   \<and> frecency_binary64 3599 0 = Inr (Finite 0)
   \<and> frecency_binary64 3600 0 = Inr (Finite 0)
   \<and> frecency_binary64 100 (2 ^ 60) = Inr (Finite 69175290276410816)
   \<and> frecency_binary64 100 (2 ^ 60 + 1) = Inr (Finite 69175290276410816)
   \<and> frecency_binary64 (10 ^ 400) 1 = Inr (Finite 0)
   \<and> frecency_binary64 (10 ^ 400) 2 = Inr (Finite 0)
   \<and> recency_score 59 = 8 \<and> recency_score 60 = 6
   \<and> frecency_binary64 59 (60 * 2 ^ 1023) = Inr PosInf
   \<and> frecency_binary64 60 (60 * 2 ^ 1023) = Inr PosInf
   \<and> frecency_binary64 100 (10 ^ 400) = Inl OverflowError
   \<and> frecency_binary64 0 1 = Inl ZeroDivisionError"
proof -
  have tiers: "recency_score 3599 = 6" "recency_score 3600 = 4"
    "recency_score 59 = 8" "recency_score 60 = 6"
    by (simp_all add: recency_score_def SECONDS_PER_MINUTE_def SECONDS_PER_HOUR_def
        SECONDS_PER_DAY_def SECONDS_PER_WEEK_def)
  have zero: "frecency_binary64 3599 0 = Inr (Finite 0)"
    "frecency_binary64 3600 0 = Inr (Finite 0)"
    by (simp_all add: float_eval_simps)
  have counts: "frecency_binary64 100 (2 ^ 60) = Inr (Finite 69175290276410816)"
    "frecency_binary64 100 (2 ^ 60 + 1) = Inr (Finite 69175290276410816)"
    by (simp_all add: float_eval_simps bit_length.simps ilog2_def)
  have "ilog2 (1 / 10 ^ 400) = - 1329"
    by (rule ilog2_unique) simp_all
  hence tiny1: "frecency_binary64 (10 ^ 400) 1 = Inr (Finite 0)"
    by (simp add: float_eval_simps)
  have "ilog2 (2 / 10 ^ 400) = - 1328"
    by (rule ilog2_unique) simp_all
  hence tiny2: "frecency_binary64 (10 ^ 400) 2 = Inr (Finite 0)"
    by (simp add: float_eval_simps)
  have "ilog2 (60 * 2 ^ 1023 / 59) = 1023"
    by (rule ilog2_unique) simp_all
  moreover have "ilog2 (4579931824444572 * 2 ^ 971 * 8) = 1026"
    by (rule ilog2_unique) simp_all
  ultimately have inf1: "frecency_binary64 59 (60 * 2 ^ 1023) = Inr PosInf"
    by (simp add: float_eval_simps)
  have "ilog2 (2 ^ 1023) = 1023"
    by (rule ilog2_unique) simp_all
  moreover have "ilog2 (2 ^ 1023 * 6) = 1025"
    by (rule ilog2_unique) simp_all
  ultimately have inf2: "frecency_binary64 60 (60 * 2 ^ 1023) = Inr PosInf"
    by (simp add: float_eval_simps)
  have "ilog2 (10 ^ 400 / 100) = 1322"
    by (rule ilog2_unique) simp_all
  hence over: "frecency_binary64 100 (10 ^ 400) = Inl OverflowError"
    by (simp add: float_eval_simps)
  have div0: "frecency_binary64 0 1 = Inl ZeroDivisionError"
    by (simp add: frecency_binary64_def int_true_divide_def)
  show ?thesis
    by (simp only: tiers zero counts tiny1 tiny2 inf1 inf2 over div0 simp_thms)
qed

text \<open>
  Claim C7, amended, in the code's floats. For every count from 1 to \<open>2^1000\<close> the score
  strictly decreases when the positive age increases across a tier boundary (the
  weight at the greater age is smaller). For every age from 1 to \<open>2^1000\<close> the score
  strictly increases with the count, for counts from 0 to \<open>2^50\<close>. At the count 0 the
  score is 0 at every age other than 0. In each case \<^const>\<open>frecency_binary64\<close> returns
  a finite score.
\<close>

theorem frecency_binary64_monotone:
  "(0 < c \<and> c \<le> 2 ^ 1000 \<and> 0 < a \<and> a < b \<and> recency_score b < recency_score a \<longrightarrow>
      (\<exists>s t. frecency_binary64 a c = Inr (Finite s) \<and> frecency_binary64 b c = Inr (Finite t)
         \<and> t < s))
   \<and> (0 < d \<and> d \<le> 2 ^ 1000 \<and> 0 \<le> m \<and> m < n \<and> n \<le> 2 ^ 50 \<longrightarrow>
      (\<exists>s t. frecency_binary64 d m = Inr (Finite s) \<and> frecency_binary64 d n = Inr (Finite t)
         \<and> s < t))
   \<and> (e \<noteq> 0 \<longrightarrow> frecency_binary64 e 0 = Inr (Finite 0))"
proof (intro conjI impI)
  assume h: "0 < c \<and> c \<le> 2 ^ 1000 \<and> 0 < a \<and> a < b \<and> recency_score b < recency_score a"
  hence "frecency_binary64 a c = Inr (Finite (round_nonneg (round_nonneg (of_int c / of_int a)
      * of_int (recency_score a))))"
    and "frecency_binary64 b c = Inr (Finite (round_nonneg (round_nonneg (of_int c / of_int b)
      * of_int (recency_score b))))"
    by (simp_all add: frecency_binary64_nonneg)
  moreover from h have "round_nonneg (round_nonneg (of_int c / of_int b) * of_int (recency_score b))
      < round_nonneg (round_nonneg (of_int c / of_int a) * of_int (recency_score a))"
    by (intro score_decreases_across_tiers) simp_all
  ultimately show "\<exists>s t. frecency_binary64 a c = Inr (Finite s)
      \<and> frecency_binary64 b c = Inr (Finite t) \<and> t < s"
    by simp
next
  assume h: "0 < d \<and> d \<le> 2 ^ 1000 \<and> 0 \<le> m \<and> m < n \<and> n \<le> 2 ^ 50"
  have "(2::int) ^ 50 \<le> 2 ^ 1000"
    by (rule power_increasing) simp_all
  with h have "frecency_binary64 d m = Inr (Finite (round_nonneg (round_nonneg (of_int m / of_int d)
      * of_int (recency_score d))))"
    and "frecency_binary64 d n = Inr (Finite (round_nonneg (round_nonneg (of_int n / of_int d)
      * of_int (recency_score d))))"
    by (simp_all add: frecency_binary64_nonneg)
  moreover from h have "round_nonneg (round_nonneg (of_int m / of_int d) * of_int (recency_score d))
      < round_nonneg (round_nonneg (of_int n / of_int d) * of_int (recency_score d))"
    by (intro score_increases_with_count) simp_all
  ultimately show "\<exists>s t. frecency_binary64 d m = Inr (Finite s)
      \<and> frecency_binary64 d n = Inr (Finite t) \<and> s < t"
    by simp
next
  assume "e \<noteq> 0"
  thus "frecency_binary64 e 0 = Inr (Finite 0)"
    by (rule frecency_binary64_zero)
qed

theorem frecency_binary64_monotone_witness:
  "(0 < (5::int) \<and> (5::int) \<le> 2 ^ 1000 \<and> 0 < (3599::int) \<and> (3599::int) < 3600
      \<and> recency_score 3600 < recency_score 3599)
   \<and> (\<exists>s t. frecency_binary64 3599 5 = Inr (Finite s) \<and> frecency_binary64 3600 5 = Inr (Finite t)
         \<and> t < s)
   \<and> (\<exists>s t. frecency_binary64 100 1 = Inr (Finite s) \<and> frecency_binary64 100 2 = Inr (Finite t)
         \<and> s < t)
   \<and> frecency_binary64 100 0 = Inr (Finite 0)"
  using frecency_binary64_monotone [where c = 5 and a = 3599 and b = 3600 and d = 100
      and m = 1 and n = 2 and e = 100]
  by (simp add: recency_score_def SECONDS_PER_MINUTE_def SECONDS_PER_HOUR_def
      SECONDS_PER_DAY_def SECONDS_PER_WEEK_def)

end
